theory Spec2Isabelle
  imports Complex_Main "HOL-Library.Multiset" "HOL-Library.Log_Nat"
begin

section \<open>Outcomes of a call\<close>

text \<open>
  A C++ call either completes or leaves defined behaviour. The model returns
  \<open>Inr\<close> of the result when the call completes and \<open>Inl\<close> of the reason when it does
  not: a \<open>vector::operator[]\<close> or array read outside the stored elements, an \<open>int\<close>
  computation whose result does not fit an \<open>int\<close>, or the use of a \<open>Dish*\<close> that does not
  point to a dish.
\<close>

datatype error = OutOfRange | SignedOverflow | InvalidPointer

definition INT_MAX :: int where
  "INT_MAX = 2147483647"

definition INT_MIN :: int where
  "INT_MIN = - 2147483648"

text \<open>The value of an \<open>int\<close> expression whose mathematical result is \<open>v\<close>.\<close>

definition int_result :: "int \<Rightarrow> error + int" where
  "int_result v = (if INT_MIN \<le> v \<and> v \<le> INT_MAX then Inr v else Inl SignedOverflow)"


section \<open>Arithmetic in double\<close>

text \<open>
  \<open>Kitchen::calculateAvgPrepTime\<close> and \<open>Kitchen::calculateElaboratePercentage\<close> compute in
  \<open>double\<close>. A \<open>double\<close> is modelled by the real number it stands for, in the binary64
  format of IEEE 754: a significand of 53 bits, exponents from \<open>-1022\<close> up, subnormal
  numbers below, and every operation returning the exact result rounded to the nearest
  \<open>double\<close>, a tie to the even significand. So \<open>a / b\<close> in \<open>double\<close> is \<open>fl (a / b)\<close>,
  and likewise for \<open>+\<close> and \<open>*\<close>.

  \<open>ilog2 x\<close> is the binary exponent of a positive \<open>x\<close>, \<open>quantum x\<close> the distance between
  the doubles around \<open>x\<close>, and \<open>fl x\<close> the \<open>double\<close> nearest to the real \<open>x\<close>. The overflow
  past the largest \<open>double\<close> is not modelled: the two functions work on \<open>int\<close> values
  and a factor of 10000, far below it.
\<close>

definition ilog2 :: "real \<Rightarrow> int" where
  "ilog2 x = (if 1 \<le> x then bitlen \<lfloor>x\<rfloor> - 1 else - bitlen (\<lceil>1 / x\<rceil> - 1))"

definition round_half_even :: "real \<Rightarrow> int" where
  "round_half_even y =
     (let f = \<lfloor>y\<rfloor>; d = y - of_int f
      in if d < 1 / 2 then f else if 1 / 2 < d then f + 1 else if even f then f else f + 1)"

definition quantum :: "real \<Rightarrow> real" where
  "quantum x = 2 powi (max (ilog2 \<bar>x\<bar> - 52) (- 1074))"

definition fl :: "real \<Rightarrow> real" where
  "fl x = (if x = 0 then 0
           else sgn x * of_int (round_half_even (\<bar>x\<bar> / quantum x)) * quantum x)"

text \<open>The conversion of an \<open>int\<close> to \<open>double\<close>.\<close>

definition double_of_int :: "int \<Rightarrow> real" where
  "double_of_int v = fl (of_int v)"

text \<open>
  \<open>round\<close> of \<open><cmath>\<close>: the nearest integer, a halfway case away from zero. The result
  is a \<open>double\<close>.
\<close>

definition c_round :: "real \<Rightarrow> real" where
  "c_round x = of_int (if 0 \<le> x then \<lfloor>x + 1 / 2\<rfloor> else - \<lfloor>- x + 1 / 2\<rfloor>)"

text \<open>
  The conversion of a \<open>double\<close> to \<open>int\<close>, as in \<open>return round(x);\<close> from a function
  that returns \<open>int\<close>: the fraction is dropped, and the behaviour is undefined when the
  value does not fit.
\<close>

definition int_of_double :: "real \<Rightarrow> error + int" where
  "int_of_double x = int_result (if 0 \<le> x then \<lfloor>x\<rfloor> else \<lceil>x\<rceil>)"


section \<open>The dish model\<close>

datatype CuisineType = ITALIAN | MEXICAN | CHINESE | INDIAN | AMERICAN | FRENCH | OTHER

datatype ServingStyle = PLATED | FAMILY_STYLE | BUFFET

datatype CookingMethod = GRILLED | BAKED | BOILED | FRIED | STEAMED | RAW

datatype Category = GRAIN | PASTA | LEGUME | BREAD | SALAD | SOUP | STARCHES | VEGETABLE

datatype FlavorProfile = SWEET | BITTER | SOUR | SALTY | UMAMI

record DietaryRequest =
  vegetarian :: bool
  vegan :: bool
  gluten_free :: bool
  nut_free :: bool
  low_sodium :: bool
  low_sugar :: bool

record SideDish =
  name :: string
  category :: Category

text \<open>
  The members of the base class \<open>Dish\<close> (\<open>name_\<close>, \<open>ingredients_\<close>, \<open>prep_time_\<close>,
  \<open>price_\<close>, \<open>cuisine_type_\<close>), as the constructors of the three subclasses pass them on.
  The subclasses extend the record as they extend the class. The price is only stored
  and carried along.
\<close>

record Dish =
  name :: string
  ingredients :: "string list"
  prep_time :: int
  price :: real
  cuisine_type :: CuisineType

record Appetizer = Dish +
  serving_style :: ServingStyle
  spiciness_level :: int
  vegetarian :: bool

record MainCourse = Dish +
  cooking_method :: CookingMethod
  protein_type :: string
  side_dishes :: "SideDish list"
  gluten_free :: bool

record Dessert = Dish +
  flavor_profile :: FlavorProfile
  sweetness_level :: int
  contains_nuts :: bool

text \<open>
  Modelled from the spec: \<open>Dish::getIngredients\<close>, \<open>Dish::setIngredients\<close> and
  \<open>Dish::getPrepTime\<close> (Dish.cpp and Dish.hpp are absent). Section 3 of the spec lists
  \<open>ingredients\<close> and \<open>prep_time_minutes\<close> as plain fields of every dish: the getters
  return the field and the setter replaces the ingredient list, leaving every other field.
\<close>

definition getIngredients :: "'a Dish_scheme \<Rightarrow> string list" where
  "getIngredients d = ingredients d"

definition setIngredients :: "'a Dish_scheme \<Rightarrow> string list \<Rightarrow> 'a Dish_scheme" where
  "setIngredients d ings = d\<lparr>ingredients := ings\<rparr>"

definition getPrepTime :: "'a Dish_scheme \<Rightarrow> int" where
  "getPrepTime d = prep_time d"


section \<open>Dietary accommodations\<close>

subsection \<open>The two scans over a vector\<close>

text \<open>\<open>v.erase(v.begin() + i)\<close>: the element at index \<open>i\<close> leaves, the later ones move up.\<close>

definition erase :: "'a list \<Rightarrow> nat \<Rightarrow> 'a list" where
  "erase v i = take i v @ drop (Suc i) v"

text \<open>
  The loops index the vector with a \<open>size_t i\<close> and run \<open>i--\<close> after an erase. At
  \<open>i = 0\<close> that wraps to \<open>SIZE_MAX\<close>, and the \<open>i++\<close> of the outer loop wraps it back to
  \<open>0\<close>. The model keeps \<open>i\<close> as an integer in which \<open>-1\<close> stands for \<open>SIZE_MAX\<close>: both
  lie outside every vector, and no second decrement can follow, since the next thing done
  with \<open>i\<close> is either the read \<open>v[i]\<close>, which is out of range, or the \<open>i++\<close>.
\<close>

definition in_range :: "'a list \<Rightarrow> int \<Rightarrow> bool" where
  "in_range v i = (0 \<le> i \<and> i < int (length v))"

text \<open>
  The inner loop of the vegetarian block of \<open>Appetizer::dietaryAccommodations\<close> and
  \<open>MainCourse::dietaryAccommodations\<close>, over the entries of \<open>nonVegIngredients\<close> that are
  still to be compared. The state is \<open>(ingredients, i, substitution_count)\<close>. After an
  erase the loop goes on comparing \<open>ingredients[i]\<close>, with the decremented \<open>i\<close>, against
  the remaining entries.
\<close>

fun substitute_inner ::
  "string list \<Rightarrow> string list \<times> int \<times> int \<Rightarrow> error + (string list \<times> int \<times> int)" where
  "substitute_inner [] s = Inr s"
| "substitute_inner (nv # rest) (ings, i, substitution_count) =
     (if in_range ings i then
        (if ings ! nat i = nv then
           (case int_result (substitution_count + 1) of
              Inl e \<Rightarrow> Inl e
            | Inr count' \<Rightarrow>
                (if substitution_count = 0 then
                   substitute_inner rest (ings[nat i := ''Beans''], i, count')
                 else if substitution_count = 1 then
                   substitute_inner rest (ings[nat i := ''Mushrooms''], i, count')
                 else
                   substitute_inner rest (erase ings (nat i), i - 1, count')))
         else substitute_inner rest (ings, i, substitution_count))
      else Inl OutOfRange)"

definition nonVegIngredients :: "string list" where
  "nonVegIngredients =
     [''Meat'', ''Chicken'', ''Fish'', ''Beef'', ''Pork'', ''Lamb'', ''Shrimp'', ''Bacon'']"

lemma substitute_inner_length:
  "substitute_inner nvs (v, i, c) = Inr (v', i', c') \<Longrightarrow>
     \<exists>k. length v' + k = length v \<and> i' = i - int k"
proof (induction nvs arbitrary: v i c)
  case Nil
  then show ?case by simp
next
  case (Cons nv rest)
  show ?case
  proof (cases "in_range v i \<and> v ! nat i = nv")
    case False
    with Cons.prems have "substitute_inner rest (v, i, c) = Inr (v', i', c')"
      by (auto split: if_splits)
    then show ?thesis by (rule Cons.IH)
  next
    case True
    then have r: "nat i < length v" by (auto simp: in_range_def)
    from True Cons.prems obtain c1 where c1: "int_result (c + 1) = Inr c1"
      by (auto split: sum.splits)
    consider "c = 0" | "c = 1" | "c \<noteq> 0" "c \<noteq> 1" by blast
    then show ?thesis
    proof cases
      case 1
      with True c1 Cons.prems
      have "substitute_inner rest (v[nat i := ''Beans''], i, c1) = Inr (v', i', c')" by simp
      from Cons.IH [OF this] show ?thesis by simp
    next
      case 2
      with True c1 Cons.prems
      have "substitute_inner rest (v[nat i := ''Mushrooms''], i, c1) = Inr (v', i', c')"
        by simp
      from Cons.IH [OF this] show ?thesis by simp
    next
      case 3
      with True c1 Cons.prems
      have "substitute_inner rest (erase v (nat i), i - 1, c1) = Inr (v', i', c')" by simp
      from Cons.IH [OF this] obtain k
        where k: "length v' + k = length (erase v (nat i))" "i' = i - 1 - int k" by blast
      have "length (erase v (nat i)) + 1 = length v" using r by (simp add: erase_def)
      with k have "length v' + Suc k = length v \<and> i' = i - int (Suc k)" by simp
      then show ?thesis by blast
    qed
  qed
qed

text \<open>
  The outer loop \<open>for (size_t i = 0; i < ingredients.size(); i++)\<close>: one round runs the
  inner loop over all eight names, then \<open>i++\<close>.
\<close>

function substitute_outer ::
  "string list \<times> int \<times> int \<Rightarrow> error + (string list \<times> int \<times> int)" where
  "substitute_outer (ings, i, substitution_count) =
     (if in_range ings i then
        (case substitute_inner nonVegIngredients (ings, i, substitution_count) of
           Inl e \<Rightarrow> Inl e
         | Inr (ings', i', count') \<Rightarrow> substitute_outer (ings', i' + 1, count'))
      else Inr (ings, i, substitution_count))"
  by pat_completeness auto
termination
proof (relation "measure (\<lambda>(v, i, c). nat (2 * int (length v) - i))", goal_cases)
  case 1
  show ?case by simp
next
  case (2 v i c s v' r i' c')
  then have "substitute_inner nonVegIngredients (v, i, c) = Inr (v', i', c')" by simp
  from substitute_inner_length [OF this] obtain k
    where "length v' + k = length v" "i' = i - int k" by blast
  moreover from 2 have "0 \<le> i" "i < int (length v)" by (simp_all add: in_range_def)
  ultimately show ?case by auto
qed

declare substitute_outer.simps [simp del]

text \<open>
  The removal loops have the same shape without the counter: every match is erased and
  followed by \<open>i--\<close>. There are five of them in the source (gluten in
  \<open>Appetizer\<close>, dairy and egg in \<open>MainCourse\<close> and \<open>Dessert\<close>, nuts in \<open>Dessert\<close>,
  side dishes in \<open>MainCourse\<close>), alike but for the list of values to erase and for what
  is compared: the element itself (\<open>key = (\<lambda>x. x)\<close>) or, for a side dish, its category
  (\<open>key = category\<close>).
\<close>

fun removal_inner :: "('a \<Rightarrow> 'b) \<Rightarrow> 'b list \<Rightarrow> 'a list \<times> int \<Rightarrow> error + ('a list \<times> int)" where
  "removal_inner key [] s = Inr s"
| "removal_inner key (g # rest) (v, i) =
     (if in_range v i then
        (if key (v ! nat i) = g then removal_inner key rest (erase v (nat i), i - 1)
         else removal_inner key rest (v, i))
      else Inl OutOfRange)"

lemma removal_inner_length:
  "removal_inner key gs (v, i) = Inr (v', i') \<Longrightarrow>
     \<exists>k. length v' + k = length v \<and> i' = i - int k"
proof (induction gs arbitrary: v i)
  case Nil
  then show ?case by simp
next
  case (Cons g rest)
  show ?case
  proof (cases "in_range v i \<and> key (v ! nat i) = g")
    case False
    with Cons.prems have "removal_inner key rest (v, i) = Inr (v', i')"
      by (auto split: if_splits)
    then show ?thesis by (rule Cons.IH)
  next
    case True
    then have r: "nat i < length v" by (auto simp: in_range_def)
    from True Cons.prems
    have "removal_inner key rest (erase v (nat i), i - 1) = Inr (v', i')" by simp
    from Cons.IH [OF this] obtain k
      where k: "length v' + k = length (erase v (nat i))" "i' = i - 1 - int k" by blast
    have "length (erase v (nat i)) + 1 = length v" using r by (simp add: erase_def)
    with k have "length v' + Suc k = length v \<and> i' = i - int (Suc k)" by simp
    then show ?thesis by blast
  qed
qed

function removal_outer :: "('a \<Rightarrow> 'b) \<Rightarrow> 'b list \<Rightarrow> 'a list \<times> int \<Rightarrow> error + ('a list \<times> int)" where
  "removal_outer key listed (v, i) =
     (if in_range v i then
        (case removal_inner key listed (v, i) of
           Inl e \<Rightarrow> Inl e
         | Inr (v', i') \<Rightarrow> removal_outer key listed (v', i' + 1))
      else Inr (v, i))"
  by pat_completeness auto
termination
proof (relation "measure (\<lambda>(key, listed, v, i). nat (2 * int (length v) - i))", goal_cases)
  case 1
  show ?case by simp
next
  case (2 key listed v i s v' i')
  then have "removal_inner key listed (v, i) = Inr (v', i')" by simp
  from removal_inner_length [OF this] obtain k
    where "length v' + k = length v" "i' = i - int k" by blast
  moreover from 2 have "0 \<le> i" "i < int (length v)" by (simp_all add: in_range_def)
  ultimately show ?case by auto
qed

declare removal_outer.simps [simp del]

text \<open>A whole scan, from \<open>i = 0\<close> (and \<open>substitution_count = 0\<close>) to the vector left at the end.\<close>

definition substitute_non_vegetarian :: "string list \<Rightarrow> error + string list" where
  "substitute_non_vegetarian ings =
     (case substitute_outer (ings, 0, 0) of Inl e \<Rightarrow> Inl e | Inr (ings', i, c) \<Rightarrow> Inr ings')"

definition remove_listed :: "('a \<Rightarrow> 'b) \<Rightarrow> 'b list \<Rightarrow> 'a list \<Rightarrow> error + 'a list" where
  "remove_listed key listed v =
     (case removal_outer key listed (v, 0) of Inl e \<Rightarrow> Inl e | Inr (v', i) \<Rightarrow> Inr v')"

definition gluten_ingredients :: "string list" where
  "gluten_ingredients =
     [''Wheat'', ''Flour'', ''Bread'', ''Pasta'', ''Barley'', ''Rye'', ''Oats'', ''Crust'']"

definition dairy_egg_ingredients :: "string list" where
  "dairy_egg_ingredients = [''Milk'', ''Eggs'', ''Cheese'', ''Butter'', ''Cream'', ''Yogurt'']"

definition nuts_ingredients :: "string list" where
  "nuts_ingredients =
     [''Almonds'', ''Walnuts'', ''Pecans'', ''Hazelnuts'', ''Peanuts'', ''Cashews'', ''Pistachios'']"

definition gluten_side_dishes_category :: "Category list" where
  "gluten_side_dishes_category = [GRAIN, PASTA, BREAD, STARCHES]"

subsection \<open>The three overrides\<close>

text \<open>Sequencing: a later block runs on what the earlier one left, if it completed.\<close>

definition and_then :: "error + 'a \<Rightarrow> ('a \<Rightarrow> error + 'b) \<Rightarrow> error + 'b" where
  "and_then r f = (case r of Inl e \<Rightarrow> Inl e | Inr x \<Rightarrow> f x)"

text \<open>\<open>Appetizer::dietaryAccommodations\<close>: the blocks for \<open>vegetarian\<close>, \<open>low_sodium\<close>, \<open>gluten_free\<close>.\<close>

definition Appetizer_vegetarian :: "DietaryRequest \<Rightarrow> Appetizer \<Rightarrow> error + Appetizer" where
  "Appetizer_vegetarian request a =
     (if DietaryRequest.vegetarian request then
        (let a1 = a\<lparr>vegetarian := True\<rparr> in
         and_then (substitute_non_vegetarian (getIngredients a1))
           (\<lambda>ings. Inr (setIngredients a1 ings)))
      else Inr a)"

definition Appetizer_low_sodium :: "DietaryRequest \<Rightarrow> Appetizer \<Rightarrow> error + Appetizer" where
  "Appetizer_low_sodium request a =
     (if low_sodium request then
        and_then (int_result (spiciness_level a - 2))
          (\<lambda>s. Inr (a\<lparr>spiciness_level := (if s < 0 then 0 else s)\<rparr>))
      else Inr a)"

definition Appetizer_gluten_free :: "DietaryRequest \<Rightarrow> Appetizer \<Rightarrow> error + Appetizer" where
  "Appetizer_gluten_free request a =
     (if DietaryRequest.gluten_free request then
        and_then (remove_listed (\<lambda>x. x) gluten_ingredients (getIngredients a))
          (\<lambda>ings. Inr (setIngredients a ings))
      else Inr a)"

definition Appetizer_dietaryAccommodations :: "Appetizer \<Rightarrow> DietaryRequest \<Rightarrow> error + Appetizer" where
  "Appetizer_dietaryAccommodations a request =
     and_then (and_then (Appetizer_vegetarian request a) (Appetizer_low_sodium request))
       (Appetizer_gluten_free request)"

text \<open>\<open>MainCourse::dietaryAccommodations\<close>: the blocks for \<open>vegetarian\<close>, \<open>vegan\<close>, \<open>gluten_free\<close>.\<close>

definition MainCourse_vegetarian :: "DietaryRequest \<Rightarrow> MainCourse \<Rightarrow> error + MainCourse" where
  "MainCourse_vegetarian request m =
     (if DietaryRequest.vegetarian request then
        (let m1 = m\<lparr>protein_type := ''Tofu''\<rparr> in
         and_then (substitute_non_vegetarian (getIngredients m1))
           (\<lambda>ings. Inr (setIngredients m1 ings)))
      else Inr m)"

definition MainCourse_vegan :: "DietaryRequest \<Rightarrow> MainCourse \<Rightarrow> error + MainCourse" where
  "MainCourse_vegan request m =
     (if vegan request then
        (let m1 = m\<lparr>protein_type := ''Tofu''\<rparr> in
         and_then (remove_listed (\<lambda>x. x) dairy_egg_ingredients (getIngredients m1))
           (\<lambda>ings. Inr (setIngredients m1 ings)))
      else Inr m)"

definition MainCourse_gluten_free :: "DietaryRequest \<Rightarrow> MainCourse \<Rightarrow> error + MainCourse" where
  "MainCourse_gluten_free request m =
     (if DietaryRequest.gluten_free request then
        (let m1 = m\<lparr>gluten_free := True\<rparr> in
         and_then (remove_listed category gluten_side_dishes_category (side_dishes m1))
           (\<lambda>sds. Inr (m1\<lparr>side_dishes := sds\<rparr>)))
      else Inr m)"

definition MainCourse_dietaryAccommodations :: "MainCourse \<Rightarrow> DietaryRequest \<Rightarrow> error + MainCourse" where
  "MainCourse_dietaryAccommodations m request =
     and_then (and_then (MainCourse_vegetarian request m) (MainCourse_vegan request))
       (MainCourse_gluten_free request)"

text \<open>\<open>Dessert::dietaryAccommodations\<close>: the blocks for \<open>nut_free\<close>, \<open>low_sugar\<close>, \<open>vegan\<close>.\<close>

definition Dessert_nut_free :: "DietaryRequest \<Rightarrow> Dessert \<Rightarrow> error + Dessert" where
  "Dessert_nut_free request d =
     (if nut_free request then
        (let d1 = d\<lparr>contains_nuts := False\<rparr> in
         and_then (remove_listed (\<lambda>x. x) nuts_ingredients (getIngredients d1))
           (\<lambda>ings. Inr (setIngredients d1 ings)))
      else Inr d)"

definition Dessert_low_sugar :: "DietaryRequest \<Rightarrow> Dessert \<Rightarrow> error + Dessert" where
  "Dessert_low_sugar request d =
     (if low_sugar request then
        and_then (int_result (sweetness_level d - 3))
          (\<lambda>s. Inr (d\<lparr>sweetness_level := (if s < 0 then 0 else s)\<rparr>))
      else Inr d)"

definition Dessert_vegan :: "DietaryRequest \<Rightarrow> Dessert \<Rightarrow> error + Dessert" where
  "Dessert_vegan request d =
     (if vegan request then
        and_then (remove_listed (\<lambda>x. x) dairy_egg_ingredients (getIngredients d))
          (\<lambda>ings. Inr (setIngredients d ings))
      else Inr d)"

definition Dessert_dietaryAccommodations :: "Dessert \<Rightarrow> DietaryRequest \<Rightarrow> error + Dessert" where
  "Dessert_dietaryAccommodations d request =
     and_then (and_then (Dessert_nut_free request d) (Dessert_low_sugar request))
       (Dessert_vegan request)"

subsection \<open>The substitution policy in the words of the specification\<close>

text \<open>
  Section 4.1 of the spec: scan the ingredients once, left to right, with a single
  running counter of the matches found so far; the first match is replaced in place with
  Beans, the second with Mushrooms, every later one is deleted.
\<close>

fun substitution_scan :: "nat \<Rightarrow> string list \<Rightarrow> string list" where
  "substitution_scan n [] = []"
| "substitution_scan n (x # xs) =
     (if x \<in> set nonVegIngredients then
        (if n = 0 then ''Beans'' # substitution_scan 1 xs
         else if n = 1 then ''Mushrooms'' # substitution_scan 2 xs
         else substitution_scan (Suc n) xs)
      else x # substitution_scan n xs)"

text \<open>The number of non-vegetarian ingredients in a list.\<close>

definition matches :: "string list \<Rightarrow> int" where
  "matches v = int (length (filter (\<lambda>x. x \<in> set nonVegIngredients) v))"

text \<open>
  A \<open>Dish*\<close> points to an object of one of the three subclasses; the virtual calls
  dispatch on it.
\<close>

datatype DishObj = AppetizerObj Appetizer | MainCourseObj MainCourse | DessertObj Dessert

fun dietaryAccommodations :: "DishObj \<Rightarrow> DietaryRequest \<Rightarrow> error + DishObj" where
  "dietaryAccommodations (AppetizerObj a) request =
     and_then (Appetizer_dietaryAccommodations a request) (\<lambda>a'. Inr (AppetizerObj a'))"
| "dietaryAccommodations (MainCourseObj m) request =
     and_then (MainCourse_dietaryAccommodations m request) (\<lambda>m'. Inr (MainCourseObj m'))"
| "dietaryAccommodations (DessertObj d) request =
     and_then (Dessert_dietaryAccommodations d request) (\<lambda>d'. Inr (DessertObj d'))"

fun dish_getPrepTime :: "DishObj \<Rightarrow> int" where
  "dish_getPrepTime (AppetizerObj a) = getPrepTime a"
| "dish_getPrepTime (MainCourseObj m) = getPrepTime m"
| "dish_getPrepTime (DessertObj d) = getPrepTime d"

fun dish_getIngredients :: "DishObj \<Rightarrow> string list" where
  "dish_getIngredients (AppetizerObj a) = getIngredients a"
| "dish_getIngredients (MainCourseObj m) = getIngredients m"
| "dish_getIngredients (DessertObj d) = getIngredients d"

text \<open>The other members of the base class, read through a pointer to any dish.\<close>

fun dish_name :: "DishObj \<Rightarrow> string" where
  "dish_name (AppetizerObj a) = Dish.name a"
| "dish_name (MainCourseObj m) = Dish.name m"
| "dish_name (DessertObj d) = Dish.name d"

fun dish_price :: "DishObj \<Rightarrow> real" where
  "dish_price (AppetizerObj a) = price a"
| "dish_price (MainCourseObj m) = price m"
| "dish_price (DessertObj d) = price d"

fun dish_cuisine_type :: "DishObj \<Rightarrow> CuisineType" where
  "dish_cuisine_type (AppetizerObj a) = cuisine_type a"
| "dish_cuisine_type (MainCourseObj m) = cuisine_type m"
| "dish_cuisine_type (DessertObj d) = cuisine_type d"

text \<open>A dish is elaborate with five or more ingredients and an hour or more of preparation.\<close>

definition is_elaborate :: "DishObj \<Rightarrow> bool" where
  "is_elaborate d = (length (dish_getIngredients d) \<ge> 5 \<and> dish_getPrepTime d \<ge> 60)"


section \<open>Displaying a dessert\<close>

text \<open>
  Modelled from the spec: the values of the enumerators of \<open>Dessert::FlavorProfile\<close>
  (Dessert.hpp is absent), which \<open>Dessert::display\<close> compares with integer literals.
  Section 3 of the spec lists them in the order \<open>SWEET, BITTER, SOUR, SALTY, UMAMI\<close>, and
  section 9 numbers them 0 to 4 in that order.
\<close>

fun FlavorProfile_value :: "FlavorProfile \<Rightarrow> int" where
  "FlavorProfile_value SWEET = 0"
| "FlavorProfile_value BITTER = 1"
| "FlavorProfile_value SOUR = 2"
| "FlavorProfile_value SALTY = 3"
| "FlavorProfile_value UMAMI = 4"

text \<open>What \<open>std::cout << n\<close> writes for an \<open>int\<close>, and \<open>std::endl\<close>.\<close>

fun show_nat :: "nat \<Rightarrow> string" where
  "show_nat n =
     (if n < 10 then [''0123456789'' ! n]
      else show_nat (n div 10) @ [''0123456789'' ! (n mod 10)])"

declare show_nat.simps [simp del]

definition show_int :: "int \<Rightarrow> string" where
  "show_int i = (if i < 0 then ''-'' @ show_nat (nat (- i)) else show_nat (nat i))"

definition endl :: string where
  "endl = [CHR 0x0A]"

text \<open>
  \<open>Dessert::display\<close>, as the text it appends to standard output. \<open>Dish::display\<close> (in the
  absent Dish.cpp) writes first; what it wrote is the parameter \<open>base\<close>.
\<close>

definition Dessert_display :: "string \<Rightarrow> Dessert \<Rightarrow> string" where
  "Dessert_display base d =
     base @
     ''Flavor Profile: '' @
     (if FlavorProfile_value (flavor_profile d) = 0 then ''Sweet'' @ endl else []) @
     (if FlavorProfile_value (flavor_profile d) = 1 then ''Bitter'' @ endl else []) @
     (if FlavorProfile_value (flavor_profile d) = 2 then ''Sour'' @ endl else []) @
     (if FlavorProfile_value (flavor_profile d) = 2 then ''Salty'' @ endl else []) @
     (if FlavorProfile_value (flavor_profile d) = 3 then ''Umami'' @ endl else []) @
     ''Sweetness Level: '' @ show_int (sweetness_level d) @ endl @
     ''Contains Nuts: '' @
     (if contains_nuts d then ''Yes'' @ endl else ''No'' @ endl)"


section \<open>The kitchen\<close>

subsection \<open>The bag it is built on\<close>

text \<open>
  Modelled from the spec: the class template \<open>ArrayBag\<close> (ArrayBag.hpp and ArrayBag.cpp
  are absent), of which \<open>Kitchen\<close> is a subclass at \<open>ItemType = Dish*\<close>. Section 2 of
  the spec: an unordered, equality-based collection with \<open>add\<close> (which may reject an
  entry), remove-by-value (which removes one equal match), a size query and iteration.
  Kitchen.cpp reads the members \<open>items_[i]\<close> for \<open>i\<close> below \<open>getCurrentSize()\<close>, so the
  entries are the first \<open>item_count_\<close> slots of the array \<open>items_\<close>: \<open>add\<close> writes the
  slot at \<open>item_count_\<close>, and \<open>remove\<close> moves the last entry into the slot of the entry
  that leaves, which keeps the entries together without an order among them.

  \<open>items\<close> lists the slots of the array that have been written so far; the slots of
  index \<open>item_count\<close> and above hold what was last written there.

  Whether \<open>add\<close> takes an entry (the capacity, and whether an entry equal to a held one
  is turned away) is left open by sections 4.3 and 9 of the spec: it is the parameter
  \<open>admits\<close>, a function of the held entries and the new one.
\<close>

record 'a ArrayBag =
  items :: "'a list"
  item_count :: nat

definition held :: "('a, 'z) ArrayBag_scheme \<Rightarrow> 'a list" where
  "held b = take (item_count b) (items b)"

definition getCurrentSize :: "('a, 'z) ArrayBag_scheme \<Rightarrow> int" where
  "getCurrentSize b = int (item_count b)"

definition isEmpty :: "('a, 'z) ArrayBag_scheme \<Rightarrow> bool" where
  "isEmpty b = (item_count b = 0)"

text \<open>The index of the first held entry equal to the target, or \<open>-1\<close>.\<close>

definition getIndexOf :: "('a, 'z) ArrayBag_scheme \<Rightarrow> 'a \<Rightarrow> int" where
  "getIndexOf b target =
     (if target \<in> set (held b) then int (length (takeWhile (\<lambda>x. x \<noteq> target) (held b)))
      else - 1)"

definition add ::
  "('a list \<Rightarrow> 'a \<Rightarrow> bool) \<Rightarrow> ('a, 'z) ArrayBag_scheme \<Rightarrow> 'a \<Rightarrow> bool \<times> ('a, 'z) ArrayBag_scheme" where
  "add admits b new_entry =
     (if admits (held b) new_entry then
        (True, b\<lparr>items := held b @ [new_entry] @ drop (Suc (item_count b)) (items b),
                 item_count := Suc (item_count b)\<rparr>)
      else (False, b))"

definition remove ::
  "('a, 'z) ArrayBag_scheme \<Rightarrow> 'a \<Rightarrow> bool \<times> ('a, 'z) ArrayBag_scheme" where
  "remove b an_entry =
     (let found_index = getIndexOf b an_entry;
          can_remove = (\<not> isEmpty b \<and> found_index > - 1)
      in if can_remove then
           (True, b\<lparr>items := (items b)[nat found_index := items b ! (item_count b - 1)],
                    item_count := item_count b - 1\<rparr>)
         else (False, b))"

text \<open>The read \<open>items_[i]\<close> of a slot: of one that was written.\<close>

definition read_item :: "('a, 'z) ArrayBag_scheme \<Rightarrow> int \<Rightarrow> error + 'a" where
  "read_item b i = (if in_range (items b) i then Inr (items b ! nat i) else Inl OutOfRange)"

subsection \<open>The kitchen and the dishes it points to\<close>

text \<open>
  The kitchen holds pointers; the dishes live outside it, at their addresses. \<open>heap\<close>
  maps the address of every live dish to the dish.
\<close>

type_synonym Dish_ptr = nat

type_synonym heap = "Dish_ptr \<rightharpoonup> DishObj"

record Kitchen = "Dish_ptr ArrayBag" +
  total_prep_time :: int
  count_elaborate :: int

text \<open>The default constructor.\<close>

definition Kitchen_default :: Kitchen where
  "Kitchen_default = \<lparr>items = [], item_count = 0, total_prep_time = 0, count_elaborate = 0\<rparr>"

definition deref :: "heap \<Rightarrow> Dish_ptr \<Rightarrow> error + DishObj" where
  "deref h p = (case h p of None \<Rightarrow> Inl InvalidPointer | Some d \<Rightarrow> Inr d)"

definition newOrder ::
  "(Dish_ptr list \<Rightarrow> Dish_ptr \<Rightarrow> bool) \<Rightarrow> heap \<Rightarrow> Kitchen \<Rightarrow> Dish_ptr \<Rightarrow> error + (bool \<times> Kitchen)" where
  "newOrder admits h k new_dish =
     (case add admits k new_dish of
        (True, k1) \<Rightarrow>
          and_then (deref h new_dish) (\<lambda>d.
          and_then (int_result (total_prep_time k1 + dish_getPrepTime d)) (\<lambda>t.
            let k2 = k1\<lparr>total_prep_time := t\<rparr> in
            if length (dish_getIngredients d) \<ge> 5 \<and> dish_getPrepTime d \<ge> 60 then
              and_then (int_result (count_elaborate k2 + 1)) (\<lambda>c.
                Inr (True, k2\<lparr>count_elaborate := c\<rparr>))
            else Inr (True, k2)))
      | (False, k1) \<Rightarrow> Inr (False, k1))"

definition serveDish :: "heap \<Rightarrow> Kitchen \<Rightarrow> Dish_ptr \<Rightarrow> error + (bool \<times> Kitchen)" where
  "serveDish h k dish_to_remove =
     (if getCurrentSize k = 0 then Inr (False, k)
      else
        (case remove k dish_to_remove of
           (True, k1) \<Rightarrow>
             and_then (deref h dish_to_remove) (\<lambda>d.
             and_then (int_result (total_prep_time k1 - dish_getPrepTime d)) (\<lambda>t.
               let k2 = k1\<lparr>total_prep_time := t\<rparr> in
               if length (dish_getIngredients d) \<ge> 5 \<and> dish_getPrepTime d \<ge> 60 then
                 and_then (int_result (count_elaborate k2 - 1)) (\<lambda>c.
                   Inr (True, k2\<lparr>count_elaborate := c\<rparr>))
               else Inr (True, k2)))
         | (False, k1) \<Rightarrow> Inr (False, k1)))"

definition getPrepTimeSum :: "Kitchen \<Rightarrow> int" where
  "getPrepTimeSum k = (if getCurrentSize k = 0 then 0 else total_prep_time k)"

definition elaborateDishCount :: "Kitchen \<Rightarrow> int" where
  "elaborateDishCount k =
     (if getCurrentSize k = 0 \<or> count_elaborate k = 0 then 0 else count_elaborate k)"

text \<open>
  \<open>releaseDishesBelowPrepTime\<close>: the loop runs \<open>i\<close> up to \<open>num\<close>, the size before the first
  removal, whatever the size has become. The state is \<open>(kitchen, i, count)\<close>, with
  the counter written \<open>removed\<close>; \<open>i++\<close> cannot overflow below \<open>num\<close>.
\<close>

function release_loop ::
  "heap \<Rightarrow> int \<Rightarrow> int \<Rightarrow> Kitchen \<times> int \<times> int \<Rightarrow> error + (Kitchen \<times> int)" where
  "release_loop h prep_time_bound num (k, i, removed) =
     (if i < num then
        and_then (read_item k i) (\<lambda>p.
        and_then (deref h p) (\<lambda>d.
          if dish_getPrepTime d < prep_time_bound then
            and_then (int_result (removed + 1)) (\<lambda>removed'.
            and_then (serveDish h k p) (\<lambda>(served, k').
              release_loop h prep_time_bound num (k', i + 1, removed')))
          else release_loop h prep_time_bound num (k, i + 1, removed)))
      else Inr (k, removed))"
  by pat_completeness auto
termination
  by (relation "measure (\<lambda>(h, t, num, k, i, removed). nat (num - i))") auto

declare release_loop.simps [simp del]

definition releaseDishesBelowPrepTime :: "heap \<Rightarrow> Kitchen \<Rightarrow> int \<Rightarrow> error + (Kitchen \<times> int)" where
  "releaseDishesBelowPrepTime h k prep_time_bound =
     release_loop h prep_time_bound (getCurrentSize k) (k, 0, 0)"

text \<open>
  \<open>dietaryAdjustment\<close>: the kitchen stays as it is, the dishes it points to change
  where they are.
\<close>

function adjustment_loop :: "Kitchen \<Rightarrow> DietaryRequest \<Rightarrow> heap \<times> int \<Rightarrow> error + heap" where
  "adjustment_loop k request (h, i) =
     (if i < getCurrentSize k then
        and_then (read_item k i) (\<lambda>p.
        and_then (deref h p) (\<lambda>d.
        and_then (dietaryAccommodations d request) (\<lambda>d'.
          adjustment_loop k request (h(p \<mapsto> d'), i + 1))))
      else Inr h)"
  by pat_completeness auto
termination
  by (relation "measure (\<lambda>(k, request, h, i). nat (getCurrentSize k - i))") auto

declare adjustment_loop.simps [simp del]

definition dietaryAdjustment :: "heap \<Rightarrow> Kitchen \<Rightarrow> DietaryRequest \<Rightarrow> error + heap" where
  "dietaryAdjustment h k request = adjustment_loop k request (h, 0)"


text \<open>
  \<open>calculateAvgPrepTime\<close>: the loop adds the preparation times to a local \<open>double\<close>,
  which hides the member \<open>total_prep_time_\<close>; the state is that total and \<open>i\<close>.
\<close>

function average_loop :: "heap \<Rightarrow> Kitchen \<Rightarrow> real \<times> int \<Rightarrow> error + real" where
  "average_loop h k (total_prep, i) =
     (if i < getCurrentSize k then
        and_then (read_item k i) (\<lambda>p.
        and_then (deref h p) (\<lambda>d.
          average_loop h k (fl (total_prep + double_of_int (dish_getPrepTime d)), i + 1)))
      else Inr total_prep)"
  by pat_completeness auto
termination
  by (relation "measure (\<lambda>(h, k, total_prep, i). nat (getCurrentSize k - i))") auto

declare average_loop.simps [simp del]

definition calculateAvgPrepTime :: "heap \<Rightarrow> Kitchen \<Rightarrow> error + int" where
  "calculateAvgPrepTime h k =
     (if getCurrentSize k = 0 then Inr 0
      else
        and_then (average_loop h k (0, 0)) (\<lambda>total_prep.
          int_of_double (c_round (fl (total_prep / double_of_int (getCurrentSize k))))))"



subsection \<open>Recomputing the aggregates from scratch\<close>

text \<open>
  The dishes the kitchen holds, read through its pointers (\<open>None\<close> when one of them does
  not point to a dish), and the two aggregates computed from them alone: the sum of the
  preparation times and the number of elaborate dishes.
\<close>

definition held_dishes :: "heap \<Rightarrow> Kitchen \<Rightarrow> DishObj list option" where
  "held_dishes h k = those (map h (held k))"

definition recomputed_prep_time_sum :: "DishObj list \<Rightarrow> int" where
  "recomputed_prep_time_sum ds = sum_list (map dish_getPrepTime ds)"

definition recomputed_elaborate_count :: "DishObj list \<Rightarrow> int" where
  "recomputed_elaborate_count ds = int (length (filter is_elaborate ds))"

text \<open>
  The two derived values in the words of the specification, over the reals: the nearest
  integer with a tie away from zero, and \<open>elaborate_count / total_count \<times> 10000\<close>.
\<close>

definition nearest_integer :: "real \<Rightarrow> int" where
  "nearest_integer x = (if 0 \<le> x then \<lfloor>x + 1 / 2\<rfloor> else - \<lfloor>- x + 1 / 2\<rfloor>)"


text \<open>
  The two members \<open>total_prep_time_\<close> and \<open>count_elaborate_\<close> agree with the recomputed
  values, the entries lie within the written part of the array and point to dishes.
\<close>

definition aggregates_consistent :: "heap \<Rightarrow> Kitchen \<Rightarrow> bool" where
  "aggregates_consistent h k =
     (item_count k \<le> length (items k) \<and>
      (case held_dishes h k of
         None \<Rightarrow> False
       | Some ds \<Rightarrow> total_prep_time k = recomputed_prep_time_sum ds \<and>
                   count_elaborate k = recomputed_elaborate_count ds))"

text \<open>The same two values over the pointers held, as a multiset: the order does not count.\<close>

definition prep_sum :: "heap \<Rightarrow> Dish_ptr multiset \<Rightarrow> int" where
  "prep_sum h A = sum_mset (image_mset (\<lambda>p. dish_getPrepTime (the (h p))) A)"

definition elaborate_number :: "heap \<Rightarrow> Dish_ptr multiset \<Rightarrow> int" where
  "elaborate_number h A = int (size (filter_mset (\<lambda>p. is_elaborate (the (h p))) A))"

text \<open>
  For \<open>releaseDishesBelowPrepTime\<close>: the held pointers whose dish takes less than \<open>t\<close>
  minutes, and the condition under which no \<open>int\<close> of the kitchen can overflow while
  dishes leave it (no negative preparation time, total and size within \<open>int\<close>).
\<close>

definition prep_below :: "heap \<Rightarrow> int \<Rightarrow> Dish_ptr \<Rightarrow> bool" where
  "prep_below h t p = (dish_getPrepTime (the (h p)) < t)"

definition no_overflow :: "heap \<Rightarrow> Kitchen \<Rightarrow> bool" where
  "no_overflow h k =
     ((\<forall>p \<in> set (held k). 0 \<le> dish_getPrepTime (the (h p))) \<and>
      total_prep_time k \<le> INT_MAX \<and> int (item_count k) \<le> INT_MAX)"

text \<open>
  What holds of the loop of \<open>releaseDishesBelowPrepTime\<close> before the round at index \<open>j\<close>,
  where \<open>orig\<close> are the entries at the start: the slots from \<open>j\<close> on are as they were, the
  kitchen holds the entries before \<open>j\<close> that were kept and all those from \<open>j\<close> on, and the
  counter is the number of entries before \<open>j\<close> that were not kept.
\<close>

definition release_invariant ::
  "heap \<Rightarrow> int \<Rightarrow> Dish_ptr list \<Rightarrow> nat \<Rightarrow> Kitchen \<Rightarrow> int \<Rightarrow> bool" where
  "release_invariant h t orig j kc r =
     (aggregates_consistent h kc \<and>
      length orig \<le> length (items kc) \<and>
      (\<forall>m. j \<le> m \<and> m < length orig \<longrightarrow> items kc ! m = orig ! m) \<and>
      mset (held kc) =
        mset (filter (\<lambda>p. \<not> prep_below h t p) (take j orig)) + mset (drop j orig) \<and>
      r = int (length (filter (prep_below h t) (take j orig))))"

subsection \<open>Sequences of calls\<close>

datatype call = NewOrder Dish_ptr | ServeDish Dish_ptr

fun run_call ::
  "(Dish_ptr list \<Rightarrow> Dish_ptr \<Rightarrow> bool) \<Rightarrow> heap \<Rightarrow> Kitchen \<Rightarrow> call \<Rightarrow> error + (bool \<times> Kitchen)" where
  "run_call admits h k (NewOrder p) = newOrder admits h k p"
| "run_call admits h k (ServeDish p) = serveDish h k p"

fun run_calls ::
  "(Dish_ptr list \<Rightarrow> Dish_ptr \<Rightarrow> bool) \<Rightarrow> heap \<Rightarrow> Kitchen \<Rightarrow> call list \<Rightarrow> error + Kitchen" where
  "run_calls admits h k [] = Inr k"
| "run_calls admits h k (c # cs) =
     and_then (run_call admits h k c) (\<lambda>(ok, k'). run_calls admits h k' cs)"

text \<open>A bag of fixed capacity: \<open>add\<close> takes an entry while there is room.\<close>

definition capacity :: "nat \<Rightarrow> Dish_ptr list \<Rightarrow> Dish_ptr \<Rightarrow> bool" where
  "capacity n entries new_entry = (length entries < n)"


section \<open>Reading the dishes of a file\<close>

text \<open>
  Modelled from the spec: the constructor \<open>Dish::Dish(name, ingredients, prep_time, price,
  cuisine_type)\<close> (Dish.cpp is absent), to which the constructors of the three subclasses
  pass their first five arguments. Section 3 of the spec lists the five as the common
  fields of a dish: the constructor stores each.
\<close>

definition Appetizer_new ::
  "string \<Rightarrow> string list \<Rightarrow> int \<Rightarrow> real \<Rightarrow> CuisineType \<Rightarrow> ServingStyle \<Rightarrow> int \<Rightarrow> bool \<Rightarrow> Appetizer" where
  "Appetizer_new nm ings prep pr cuisine style spiciness veg =
     \<lparr>name = nm, ingredients = ings, prep_time = prep, price = pr, cuisine_type = cuisine,
      serving_style = style, spiciness_level = spiciness, vegetarian = veg\<rparr>"

definition MainCourse_new ::
  "string \<Rightarrow> string list \<Rightarrow> int \<Rightarrow> real \<Rightarrow> CuisineType \<Rightarrow> CookingMethod \<Rightarrow> string \<Rightarrow>
   SideDish list \<Rightarrow> bool \<Rightarrow> MainCourse" where
  "MainCourse_new nm ings prep pr cuisine method protein sides gf =
     \<lparr>name = nm, ingredients = ings, prep_time = prep, price = pr, cuisine_type = cuisine,
      cooking_method = method, protein_type = protein, side_dishes = sides, gluten_free = gf\<rparr>"

definition Dessert_new ::
  "string \<Rightarrow> string list \<Rightarrow> int \<Rightarrow> real \<Rightarrow> CuisineType \<Rightarrow> FlavorProfile \<Rightarrow> int \<Rightarrow> bool \<Rightarrow> Dessert" where
  "Dessert_new nm ings prep pr cuisine flavor sweetness nuts =
     \<lparr>name = nm, ingredients = ings, prep_time = prep, price = pr, cuisine_type = cuisine,
      flavor_profile = flavor, sweetness_level = sweetness, contains_nuts = nuts\<rparr>"

text \<open>
  The chains of comparisons by which the constructor \<open>Kitchen::Kitchen(filename)\<close> turns
  the tokens of a line into enumerators. The chain for the cuisine type stands three
  times in the source, once per dish type, the same each time.
\<close>

definition cuisine_type_enum :: "string \<Rightarrow> CuisineType" where
  "cuisine_type_enum token =
     (if token = ''ITALIAN'' then ITALIAN
      else if token = ''MEXICAN'' then MEXICAN
      else if token = ''CHINESE'' then CHINESE
      else if token = ''INDIAN'' then INDIAN
      else if token = ''AMERICAN'' then AMERICAN
      else if token = ''FRENCH'' then FRENCH
      else OTHER)"

definition serving_style_enum :: "string \<Rightarrow> ServingStyle" where
  "serving_style_enum token =
     (if token = ''PLATED'' then PLATED
      else if token = ''FAMILY_STYLE'' then FAMILY_STYLE
      else if token = ''BUFFET'' then BUFFET
      else PLATED)"

text \<open>One entry \<open>name:category\<close> of the side dishes of a main course.\<close>

definition side_dishes_enum :: "string \<times> string \<Rightarrow> SideDish" where
  "side_dishes_enum entry =
     (case entry of (side_dishes_name, side_dishes_category) \<Rightarrow>
        \<lparr>SideDish.name = side_dishes_name,
         category =
           (if side_dishes_category = ''GRAIN'' then GRAIN
            else if side_dishes_category = ''PASTA'' then PASTA
            else if side_dishes_category = ''LEGUME'' then LEGUME
            else if side_dishes_category = ''BREAD'' then BREAD
            else if side_dishes_category = ''SALAD'' then SALAD
            else if side_dishes_category = ''SOUP'' then SOUP
            else if side_dishes_category = ''STARCHES'' then STARCHES
            else if side_dishes_category = ''VEGETABLE'' then VEGETABLE
            else GRAIN)\<rparr>)"

definition cooking_method_enum :: "string \<Rightarrow> CookingMethod" where
  "cooking_method_enum token =
     (if token = ''GRILLED'' then GRILLED
      else if token = ''BAKED'' then BAKED
      else if token = ''BOILED'' then BOILED
      else if token = ''FRIED'' then FRIED
      else if token = ''STEAMED'' then STEAMED
      else if token = ''RAW'' then RAW
      else GRILLED)"

definition flavor_profile_enum :: "string \<Rightarrow> FlavorProfile" where
  "flavor_profile_enum token =
     (if token = ''SWEET'' then SWEET
      else if token = ''BITTER'' then BITTER
      else if token = ''SOUR'' then SOUR
      else if token = ''SALTY'' then SALTY
      else if token = ''UMAMI'' then UMAMI
      else SWEET)"

text \<open>
  The three branches of the constructor, on \<open>_dishtype_\<close>, from the point where the fields
  of the line have been split and its numbers and truth values read (by \<open>std::getline\<close>,
  \<open>std::stoi\<close>, \<open>std::stod\<close> and the comparison with \<open>"true"\<close>): the tokens are
  decoded and the dish is constructed.
\<close>

definition APPETIZER_dish ::
  "string \<Rightarrow> string list \<Rightarrow> int \<Rightarrow> real \<Rightarrow> string \<Rightarrow> string \<Rightarrow> int \<Rightarrow> bool \<Rightarrow> Appetizer" where
  "APPETIZER_dish nm ingredient_strings prep pr cuisine_token serving_style_token spiciness veg =
     Appetizer_new nm ingredient_strings prep pr (cuisine_type_enum cuisine_token)
       (serving_style_enum serving_style_token) spiciness veg"

definition MAINCOURSE_dish ::
  "string \<Rightarrow> string list \<Rightarrow> int \<Rightarrow> real \<Rightarrow> string \<Rightarrow> string \<Rightarrow> string \<Rightarrow>
   (string \<times> string) list \<Rightarrow> bool \<Rightarrow> MainCourse" where
  "MAINCOURSE_dish nm ingredient_strings prep pr cuisine_token cooking_method_token protein
       side_dish_entries gf =
     MainCourse_new nm ingredient_strings prep pr (cuisine_type_enum cuisine_token)
       (cooking_method_enum cooking_method_token) protein
       (map side_dishes_enum side_dish_entries) gf"

definition DESSERT_dish ::
  "string \<Rightarrow> string list \<Rightarrow> int \<Rightarrow> real \<Rightarrow> string \<Rightarrow> string \<Rightarrow> int \<Rightarrow> bool \<Rightarrow> Dessert" where
  "DESSERT_dish nm ingredient_strings prep pr cuisine_token flavor_profile_token sweetness nuts =
     Dessert_new nm ingredient_strings prep pr (cuisine_type_enum cuisine_token)
       (flavor_profile_enum flavor_profile_token) sweetness nuts"


section \<open>Sample dishes and requests\<close>

definition all_flags :: DietaryRequest where
  "all_flags =
     \<lparr>DietaryRequest.vegetarian = True, vegan = True, DietaryRequest.gluten_free = True,
      nut_free = True, low_sodium = True, low_sugar = True\<rparr>"

definition vegetarian_only :: DietaryRequest where
  "vegetarian_only =
     \<lparr>DietaryRequest.vegetarian = True, vegan = False, DietaryRequest.gluten_free = False,
      nut_free = False, low_sodium = False, low_sugar = False\<rparr>"

definition wings :: Appetizer where
  "wings =
     \<lparr>name = ''Wings'', ingredients = [''Chicken'', ''Flour'', ''Beef'', ''Fish'', ''Salt''],
      prep_time = 65, price = 5.25, cuisine_type = AMERICAN, serving_style = FAMILY_STYLE,
      spiciness_level = 1, vegetarian = False\<rparr>"

definition wings_adjusted :: Appetizer where
  "wings_adjusted =
     \<lparr>name = ''Wings'', ingredients = [''Beans'', ''Mushrooms'', ''Salt''],
      prep_time = 65, price = 5.25, cuisine_type = AMERICAN, serving_style = FAMILY_STYLE,
      spiciness_level = 0, vegetarian = True\<rparr>"

definition steak :: MainCourse where
  "steak =
     \<lparr>name = ''Steak'', ingredients = [''Beef'', ''Butter'', ''Bacon'', ''Shrimp'', ''Pepper''],
      prep_time = 70, price = 24.5, cuisine_type = FRENCH, cooking_method = GRILLED,
      protein_type = ''Beef'',
      side_dishes = [\<lparr>SideDish.name = ''Salad'', category = SALAD\<rparr>,
                     \<lparr>SideDish.name = ''Fries'', category = STARCHES\<rparr>,
                     \<lparr>SideDish.name = ''Rice'', category = GRAIN\<rparr>],
      gluten_free = False\<rparr>"

definition steak_adjusted :: MainCourse where
  "steak_adjusted =
     \<lparr>name = ''Steak'', ingredients = [''Beans'', ''Mushrooms'', ''Pepper''],
      prep_time = 70, price = 24.5, cuisine_type = FRENCH, cooking_method = GRILLED,
      protein_type = ''Tofu'',
      side_dishes = [\<lparr>SideDish.name = ''Salad'', category = SALAD\<rparr>],
      gluten_free = True\<rparr>"

definition brownie :: Dessert where
  "brownie =
     \<lparr>name = ''Brownie'', ingredients = [''Cocoa'', ''Butter'', ''Walnuts'', ''Sugar''],
      prep_time = 40, price = 4, cuisine_type = OTHER, flavor_profile = SALTY,
      sweetness_level = 7, contains_nuts = True\<rparr>"

definition brownie_adjusted :: Dessert where
  "brownie_adjusted =
     \<lparr>name = ''Brownie'', ingredients = [''Cocoa'', ''Sugar''],
      prep_time = 40, price = 4, cuisine_type = OTHER, flavor_profile = SALTY,
      sweetness_level = 4, contains_nuts = False\<rparr>"


definition one_dish :: heap where
  "one_dish = [0 \<mapsto> AppetizerObj wings]"

definition two_dishes :: heap where
  "two_dishes = [0 \<mapsto> AppetizerObj wings, 1 \<mapsto> DessertObj brownie]"

definition kitchen_with_wings :: Kitchen where
  "kitchen_with_wings =
     \<lparr>items = [0], item_count = 1, total_prep_time = 65, count_elaborate = 1\<rparr>"


definition sorbet :: Dessert where
  "sorbet =
     \<lparr>name = ''Sorbet'', ingredients = [''Lemon'', ''Sugar''],
      prep_time = 10, price = 3.5, cuisine_type = ITALIAN, flavor_profile = SOUR,
      sweetness_level = 2, contains_nuts = False\<rparr>"

definition three_dishes :: heap where
  "three_dishes = [0 \<mapsto> AppetizerObj wings, 1 \<mapsto> DessertObj brownie, 2 \<mapsto> DessertObj sorbet]"

definition kitchen_of_three :: Kitchen where
  "kitchen_of_three =
     \<lparr>items = [1, 0, 2], item_count = 3, total_prep_time = 115, count_elaborate = 1\<rparr>"

definition kitchen_after_release :: Kitchen where
  "kitchen_after_release =
     \<lparr>items = [0, 0, 2], item_count = 1, total_prep_time = 65, count_elaborate = 1\<rparr>"



definition kitchen_of_two :: Kitchen where
  "kitchen_of_two = \<lparr>items = [0, 1], item_count = 2, total_prep_time = 105, count_elaborate = 1\<rparr>"


section \<open>Properties of the dietary accommodations\<close>

lemma and_then_Inr: "and_then r f = Inr y \<longleftrightarrow> (\<exists>x. r = Inr x \<and> f x = Inr y)"
  by (cases r) (simp_all add: and_then_def)

lemma wings_all_flags: "Appetizer_dietaryAccommodations wings all_flags = Inr wings_adjusted"
  by code_simp

lemma steak_all_flags: "MainCourse_dietaryAccommodations steak all_flags = Inr steak_adjusted"
  by code_simp

lemma brownie_all_flags: "Dessert_dietaryAccommodations brownie all_flags = Inr brownie_adjusted"
  by code_simp

subsection \<open>What each block changes\<close>

lemma Appetizer_vegetarian_cases:
  assumes "Appetizer_vegetarian request a = Inr a'"
  obtains "\<not> DietaryRequest.vegetarian request" "a' = a"
  | ings where "DietaryRequest.vegetarian request"
      "substitute_non_vegetarian (ingredients a) = Inr ings"
      "a' = a\<lparr>ingredients := ings, vegetarian := True\<rparr>"
  using assms
  by (cases "DietaryRequest.vegetarian request")
    (auto simp: Appetizer_vegetarian_def and_then_Inr Let_def setIngredients_def
      getIngredients_def)

lemma Appetizer_low_sodium_cases:
  assumes "Appetizer_low_sodium request a = Inr a'"
  obtains "\<not> low_sodium request" "a' = a"
  | "low_sodium request" "INT_MIN \<le> spiciness_level a - 2"
      "a' = a\<lparr>spiciness_level := max 0 (spiciness_level a - 2)\<rparr>"
  using assms
  by (cases "low_sodium request")
    (auto simp: Appetizer_low_sodium_def and_then_Inr int_result_def max_def split: if_splits)

lemma Appetizer_gluten_free_cases:
  assumes "Appetizer_gluten_free request a = Inr a'"
  obtains "\<not> DietaryRequest.gluten_free request" "a' = a"
  | ings where "DietaryRequest.gluten_free request"
      "remove_listed (\<lambda>x. x) gluten_ingredients (ingredients a) = Inr ings"
      "a' = a\<lparr>ingredients := ings\<rparr>"
  using assms
  by (cases "DietaryRequest.gluten_free request")
    (auto simp: Appetizer_gluten_free_def and_then_Inr setIngredients_def getIngredients_def)

lemma Appetizer_blocks:
  assumes "Appetizer_dietaryAccommodations a request = Inr a'"
  obtains a1 a2 where "Appetizer_vegetarian request a = Inr a1"
    "Appetizer_low_sodium request a1 = Inr a2" "Appetizer_gluten_free request a2 = Inr a'"
  using assms by (auto simp: Appetizer_dietaryAccommodations_def and_then_Inr)

lemma MainCourse_vegetarian_cases:
  assumes "MainCourse_vegetarian request m = Inr m'"
  obtains "\<not> DietaryRequest.vegetarian request" "m' = m"
  | ings where "DietaryRequest.vegetarian request"
      "substitute_non_vegetarian (ingredients m) = Inr ings"
      "m' = m\<lparr>ingredients := ings, protein_type := ''Tofu''\<rparr>"
  using assms
  by (cases "DietaryRequest.vegetarian request")
    (auto simp: MainCourse_vegetarian_def and_then_Inr Let_def setIngredients_def
      getIngredients_def)

lemma MainCourse_vegan_cases:
  assumes "MainCourse_vegan request m = Inr m'"
  obtains "\<not> vegan request" "m' = m"
  | ings where "vegan request"
      "remove_listed (\<lambda>x. x) dairy_egg_ingredients (ingredients m) = Inr ings"
      "m' = m\<lparr>ingredients := ings, protein_type := ''Tofu''\<rparr>"
  using assms
  by (cases "vegan request")
    (auto simp: MainCourse_vegan_def and_then_Inr Let_def setIngredients_def
      getIngredients_def)

lemma MainCourse_gluten_free_cases:
  assumes "MainCourse_gluten_free request m = Inr m'"
  obtains "\<not> DietaryRequest.gluten_free request" "m' = m"
  | sds where "DietaryRequest.gluten_free request"
      "remove_listed category gluten_side_dishes_category (side_dishes m) = Inr sds"
      "m' = m\<lparr>side_dishes := sds, gluten_free := True\<rparr>"
  using assms
  by (cases "DietaryRequest.gluten_free request")
    (auto simp: MainCourse_gluten_free_def and_then_Inr Let_def)

lemma MainCourse_blocks:
  assumes "MainCourse_dietaryAccommodations m request = Inr m'"
  obtains m1 m2 where "MainCourse_vegetarian request m = Inr m1"
    "MainCourse_vegan request m1 = Inr m2" "MainCourse_gluten_free request m2 = Inr m'"
  using assms by (auto simp: MainCourse_dietaryAccommodations_def and_then_Inr)

lemma Dessert_nut_free_cases:
  assumes "Dessert_nut_free request d = Inr d'"
  obtains "\<not> nut_free request" "d' = d"
  | ings where "nut_free request"
      "remove_listed (\<lambda>x. x) nuts_ingredients (ingredients d) = Inr ings"
      "d' = d\<lparr>ingredients := ings, contains_nuts := False\<rparr>"
  using assms
  by (cases "nut_free request")
    (auto simp: Dessert_nut_free_def and_then_Inr Let_def setIngredients_def getIngredients_def)

lemma Dessert_low_sugar_cases:
  assumes "Dessert_low_sugar request d = Inr d'"
  obtains "\<not> low_sugar request" "d' = d"
  | "low_sugar request" "INT_MIN \<le> sweetness_level d - 3"
      "d' = d\<lparr>sweetness_level := max 0 (sweetness_level d - 3)\<rparr>"
  using assms
  by (cases "low_sugar request")
    (auto simp: Dessert_low_sugar_def and_then_Inr int_result_def max_def split: if_splits)

lemma Dessert_vegan_cases:
  assumes "Dessert_vegan request d = Inr d'"
  obtains "\<not> vegan request" "d' = d"
  | ings where "vegan request"
      "remove_listed (\<lambda>x. x) dairy_egg_ingredients (ingredients d) = Inr ings"
      "d' = d\<lparr>ingredients := ings\<rparr>"
  using assms
  by (cases "vegan request")
    (auto simp: Dessert_vegan_def and_then_Inr setIngredients_def getIngredients_def)

lemma Dessert_blocks:
  assumes "Dessert_dietaryAccommodations d request = Inr d'"
  obtains d1 d2 where "Dessert_nut_free request d = Inr d1"
    "Dessert_low_sugar request d1 = Inr d2" "Dessert_vegan request d2 = Inr d'"
  using assms by (auto simp: Dessert_dietaryAccommodations_def and_then_Inr)

subsection \<open>What an accommodation leaves alone\<close>

lemma Appetizer_frame:
  assumes "Appetizer_dietaryAccommodations a request = Inr a'"
  shows "Dish.name a' = Dish.name a \<and> prep_time a' = prep_time a \<and> price a' = price a \<and>
         cuisine_type a' = cuisine_type a \<and> serving_style a' = serving_style a"
proof -
  from assms obtain a1 a2 where b: "Appetizer_vegetarian request a = Inr a1"
    "Appetizer_low_sodium request a1 = Inr a2" "Appetizer_gluten_free request a2 = Inr a'"
    by (rule Appetizer_blocks)
  have "Dish.name a1 = Dish.name a \<and> prep_time a1 = prep_time a \<and> price a1 = price a \<and>
         cuisine_type a1 = cuisine_type a \<and> serving_style a1 = serving_style a"
    using b(1) by (rule Appetizer_vegetarian_cases) simp_all
  moreover have "Dish.name a2 = Dish.name a1 \<and> prep_time a2 = prep_time a1 \<and>
         price a2 = price a1 \<and> cuisine_type a2 = cuisine_type a1 \<and>
         serving_style a2 = serving_style a1"
    using b(2) by (rule Appetizer_low_sodium_cases) simp_all
  moreover have "Dish.name a' = Dish.name a2 \<and> prep_time a' = prep_time a2 \<and>
         price a' = price a2 \<and> cuisine_type a' = cuisine_type a2 \<and>
         serving_style a' = serving_style a2"
    using b(3) by (rule Appetizer_gluten_free_cases) simp_all
  ultimately show ?thesis by simp
qed

lemma MainCourse_frame:
  assumes "MainCourse_dietaryAccommodations m request = Inr m'"
  shows "Dish.name m' = Dish.name m \<and> prep_time m' = prep_time m \<and> price m' = price m \<and>
         cuisine_type m' = cuisine_type m \<and> cooking_method m' = cooking_method m"
proof -
  from assms obtain m1 m2 where b: "MainCourse_vegetarian request m = Inr m1"
    "MainCourse_vegan request m1 = Inr m2" "MainCourse_gluten_free request m2 = Inr m'"
    by (rule MainCourse_blocks)
  have "Dish.name m1 = Dish.name m \<and> prep_time m1 = prep_time m \<and> price m1 = price m \<and>
         cuisine_type m1 = cuisine_type m \<and> cooking_method m1 = cooking_method m"
    using b(1) by (rule MainCourse_vegetarian_cases) simp_all
  moreover have "Dish.name m2 = Dish.name m1 \<and> prep_time m2 = prep_time m1 \<and>
         price m2 = price m1 \<and> cuisine_type m2 = cuisine_type m1 \<and>
         cooking_method m2 = cooking_method m1"
    using b(2) by (rule MainCourse_vegan_cases) simp_all
  moreover have "Dish.name m' = Dish.name m2 \<and> prep_time m' = prep_time m2 \<and>
         price m' = price m2 \<and> cuisine_type m' = cuisine_type m2 \<and>
         cooking_method m' = cooking_method m2"
    using b(3) by (rule MainCourse_gluten_free_cases) simp_all
  ultimately show ?thesis by simp
qed

lemma Dessert_frame:
  assumes "Dessert_dietaryAccommodations d request = Inr d'"
  shows "Dish.name d' = Dish.name d \<and> prep_time d' = prep_time d \<and> price d' = price d \<and>
         cuisine_type d' = cuisine_type d \<and> flavor_profile d' = flavor_profile d"
proof -
  from assms obtain d1 d2 where b: "Dessert_nut_free request d = Inr d1"
    "Dessert_low_sugar request d1 = Inr d2" "Dessert_vegan request d2 = Inr d'"
    by (rule Dessert_blocks)
  have "Dish.name d1 = Dish.name d \<and> prep_time d1 = prep_time d \<and> price d1 = price d \<and>
         cuisine_type d1 = cuisine_type d \<and> flavor_profile d1 = flavor_profile d"
    using b(1) by (rule Dessert_nut_free_cases) simp_all
  moreover have "Dish.name d2 = Dish.name d1 \<and> prep_time d2 = prep_time d1 \<and>
         price d2 = price d1 \<and> cuisine_type d2 = cuisine_type d1 \<and>
         flavor_profile d2 = flavor_profile d1"
    using b(2) by (rule Dessert_low_sugar_cases) simp_all
  moreover have "Dish.name d' = Dish.name d2 \<and> prep_time d' = prep_time d2 \<and>
         price d' = price d2 \<and> cuisine_type d' = cuisine_type d2 \<and>
         flavor_profile d' = flavor_profile d2"
    using b(3) by (rule Dessert_vegan_cases) simp_all
  ultimately show ?thesis by simp
qed

text \<open>
  C10. For every dish variant and every dietary request, a completed
  \<open>dietaryAccommodations\<close> leaves the name, the preparation time, the price and the cuisine
  type of the dish as they were. The dish stays of its variant, and the variant's field
  that no block assigns (serving style, cooking method, flavor profile) is unchanged too:
  only the ingredient list and the fields the blocks assign can differ.
\<close>

theorem dietaryAccommodations_frame:
  assumes "dietaryAccommodations d request = Inr d'"
  shows "dish_name d' = dish_name d \<and> dish_getPrepTime d' = dish_getPrepTime d \<and>
         dish_price d' = dish_price d \<and> dish_cuisine_type d' = dish_cuisine_type d \<and>
         (case (d, d') of
            (AppetizerObj a, AppetizerObj a') \<Rightarrow> serving_style a' = serving_style a
          | (MainCourseObj m, MainCourseObj m') \<Rightarrow> cooking_method m' = cooking_method m
          | (DessertObj x, DessertObj x') \<Rightarrow> flavor_profile x' = flavor_profile x
          | _ \<Rightarrow> False)"
proof (cases d)
  case (AppetizerObj a)
  with assms obtain a'
    where "Appetizer_dietaryAccommodations a request = Inr a'" "d' = AppetizerObj a'"
    by (auto simp: and_then_Inr)
  with Appetizer_frame [OF this(1)] AppetizerObj show ?thesis
    by (simp add: getPrepTime_def)
next
  case (MainCourseObj m)
  with assms obtain m'
    where "MainCourse_dietaryAccommodations m request = Inr m'" "d' = MainCourseObj m'"
    by (auto simp: and_then_Inr)
  with MainCourse_frame [OF this(1)] MainCourseObj show ?thesis
    by (simp add: getPrepTime_def)
next
  case (DessertObj x)
  with assms obtain x'
    where "Dessert_dietaryAccommodations x request = Inr x'" "d' = DessertObj x'"
    by (auto simp: and_then_Inr)
  with Dessert_frame [OF this(1)] DessertObj show ?thesis
    by (simp add: getPrepTime_def)
qed

theorem dietaryAccommodations_frame_witness:
  "dietaryAccommodations (AppetizerObj wings) all_flags = Inr (AppetizerObj wings_adjusted) \<and>
   dish_name (AppetizerObj wings_adjusted) = dish_name (AppetizerObj wings) \<and>
   dish_getPrepTime (AppetizerObj wings_adjusted) = dish_getPrepTime (AppetizerObj wings) \<and>
   dish_price (AppetizerObj wings_adjusted) = dish_price (AppetizerObj wings) \<and>
   dish_cuisine_type (AppetizerObj wings_adjusted) = dish_cuisine_type (AppetizerObj wings) \<and>
   serving_style wings_adjusted = serving_style wings"
proof -
  have h: "dietaryAccommodations (AppetizerObj wings) all_flags = Inr (AppetizerObj wings_adjusted)"
    by (simp add: wings_all_flags and_then_def)
  from dietaryAccommodations_frame [OF h] h show ?thesis by simp
qed

subsection \<open>Clamping of the levels\<close>

lemma Appetizer_level:
  assumes "Appetizer_dietaryAccommodations a request = Inr a'" "low_sodium request"
  shows "spiciness_level a' = max 0 (spiciness_level a - 2)"
proof -
  from assms(1) obtain a1 a2 where b: "Appetizer_vegetarian request a = Inr a1"
    "Appetizer_low_sodium request a1 = Inr a2" "Appetizer_gluten_free request a2 = Inr a'"
    by (rule Appetizer_blocks)
  have "spiciness_level a1 = spiciness_level a"
    using b(1) by (rule Appetizer_vegetarian_cases) simp_all
  moreover have "spiciness_level a2 = max 0 (spiciness_level a1 - 2)"
    by (rule Appetizer_low_sodium_cases [OF b(2)]) (use assms(2) in simp_all)
  moreover have "spiciness_level a' = spiciness_level a2"
    using b(3) by (rule Appetizer_gluten_free_cases) simp_all
  ultimately show ?thesis by simp
qed

lemma Dessert_level:
  assumes "Dessert_dietaryAccommodations d request = Inr d'" "low_sugar request"
  shows "sweetness_level d' = max 0 (sweetness_level d - 3)"
proof -
  from assms(1) obtain d1 d2 where b: "Dessert_nut_free request d = Inr d1"
    "Dessert_low_sugar request d1 = Inr d2" "Dessert_vegan request d2 = Inr d'"
    by (rule Dessert_blocks)
  have "sweetness_level d1 = sweetness_level d"
    using b(1) by (rule Dessert_nut_free_cases) simp_all
  moreover have "sweetness_level d2 = max 0 (sweetness_level d1 - 3)"
    by (rule Dessert_low_sugar_cases [OF b(2)]) (use assms(2) in simp_all)
  moreover have "sweetness_level d' = sweetness_level d2"
    using b(3) by (rule Dessert_vegan_cases) simp_all
  ultimately show ?thesis by simp
qed

text \<open>
  The subtraction itself is an \<open>int\<close> computation: it completes from every level that is
  not within 2 (or 3) of the least \<open>int\<close>, so from every level of 0 or more.
\<close>

lemma Appetizer_low_sodium_completes:
  assumes "low_sodium request" "INT_MIN + 2 \<le> spiciness_level a" "spiciness_level a \<le> INT_MAX"
  shows "Appetizer_low_sodium request a =
           Inr (a\<lparr>spiciness_level := max 0 (spiciness_level a - 2)\<rparr>)"
  using assms by (simp add: Appetizer_low_sodium_def and_then_def int_result_def max_def)

lemma Dessert_low_sugar_completes:
  assumes "low_sugar request" "INT_MIN + 3 \<le> sweetness_level d" "sweetness_level d \<le> INT_MAX"
  shows "Dessert_low_sugar request d =
           Inr (d\<lparr>sweetness_level := max 0 (sweetness_level d - 3)\<rparr>)"
  using assms by (simp add: Dessert_low_sugar_def and_then_def int_result_def max_def)

text \<open>
  The whole call, for a request with the flag set: the block before it, then the block
  after it on the dish with the level reduced and clamped.
\<close>

lemma Appetizer_call_level:
  assumes "low_sodium request" "INT_MIN + 2 \<le> spiciness_level a" "spiciness_level a \<le> INT_MAX"
  shows "Appetizer_dietaryAccommodations a request =
     and_then (Appetizer_vegetarian request a)
       (\<lambda>a1. Appetizer_gluten_free request
          (a1\<lparr>spiciness_level := max 0 (spiciness_level a - 2)\<rparr>))"
proof (cases "Appetizer_vegetarian request a")
  case (Inl e)
  then show ?thesis by (simp add: Appetizer_dietaryAccommodations_def and_then_def)
next
  case (Inr a1)
  then have "spiciness_level a1 = spiciness_level a"
    by (rule Appetizer_vegetarian_cases) simp_all
  with assms have "Appetizer_low_sodium request a1 =
      Inr (a1\<lparr>spiciness_level := max 0 (spiciness_level a - 2)\<rparr>)"
    using Appetizer_low_sodium_completes [of request a1] by simp
  with Inr show ?thesis by (simp add: Appetizer_dietaryAccommodations_def and_then_def)
qed

lemma Dessert_call_level:
  assumes "low_sugar request" "INT_MIN + 3 \<le> sweetness_level d" "sweetness_level d \<le> INT_MAX"
  shows "Dessert_dietaryAccommodations d request =
     and_then (Dessert_nut_free request d)
       (\<lambda>d1. Dessert_vegan request
          (d1\<lparr>sweetness_level := max 0 (sweetness_level d - 3)\<rparr>))"
proof (cases "Dessert_nut_free request d")
  case (Inl e)
  then show ?thesis by (simp add: Dessert_dietaryAccommodations_def and_then_def)
next
  case (Inr d1)
  then have "sweetness_level d1 = sweetness_level d"
    by (rule Dessert_nut_free_cases) simp_all
  with assms have "Dessert_low_sugar request d1 =
      Inr (d1\<lparr>sweetness_level := max 0 (sweetness_level d - 3)\<rparr>)"
    using Dessert_low_sugar_completes [of request d1] by simp
  with Inr show ?thesis by (simp add: Dessert_dietaryAccommodations_def and_then_def)
qed


text \<open>
  C8. For every appetizer and every request with \<open>low_sodium\<close> set, the block of
  \<open>dietaryAccommodations\<close> for that flag completes and leaves the spiciness level at the
  old level less 2, or at 0 where that would be negative; the whole call is the
  vegetarian block followed by the gluten-free block on the dish with that level, so
  that it completes whenever these two do, and every completed call leaves that level.
  For every dessert and every request with \<open>low_sugar\<close> set the same holds of the
  sweetness level, less 3, between the nut-free and the vegan block. The level left is
  never negative. The starting level is any \<open>int\<close> from which the subtraction does not
  overflow: every level but the 2 (or 3) least values of \<open>int\<close>.
\<close>

theorem levels_reduced_and_clamped:
  "(low_sodium request \<and> INT_MIN + 2 \<le> spiciness_level a \<and> spiciness_level a \<le> INT_MAX \<longrightarrow>
      Appetizer_low_sodium request a =
        Inr (a\<lparr>spiciness_level := max 0 (spiciness_level a - 2)\<rparr>) \<and>
      Appetizer_dietaryAccommodations a request =
        and_then (Appetizer_vegetarian request a)
          (\<lambda>a1. Appetizer_gluten_free request
             (a1\<lparr>spiciness_level := max 0 (spiciness_level a - 2)\<rparr>))) \<and>
   (low_sugar request \<and> INT_MIN + 3 \<le> sweetness_level d \<and> sweetness_level d \<le> INT_MAX \<longrightarrow>
      Dessert_low_sugar request d =
        Inr (d\<lparr>sweetness_level := max 0 (sweetness_level d - 3)\<rparr>) \<and>
      Dessert_dietaryAccommodations d request =
        and_then (Dessert_nut_free request d)
          (\<lambda>d1. Dessert_vegan request
             (d1\<lparr>sweetness_level := max 0 (sweetness_level d - 3)\<rparr>))) \<and>
   (Appetizer_dietaryAccommodations a request = Inr a' \<and> low_sodium request \<longrightarrow>
      spiciness_level a' = max 0 (spiciness_level a - 2) \<and> 0 \<le> spiciness_level a') \<and>
   (Dessert_dietaryAccommodations d request = Inr d' \<and> low_sugar request \<longrightarrow>
      sweetness_level d' = max 0 (sweetness_level d - 3) \<and> 0 \<le> sweetness_level d')"
  using Appetizer_level [of a request a'] Dessert_level [of d request d']
    Appetizer_low_sodium_completes [of request a] Dessert_low_sugar_completes [of request d]
    Appetizer_call_level [of request a] Dessert_call_level [of request d]
  by simp

theorem levels_reduced_and_clamped_witness:
  "low_sodium all_flags \<and> low_sugar all_flags \<and>
   spiciness_level wings = 1 \<and> sweetness_level brownie = 7 \<and>
   Appetizer_low_sodium all_flags wings = Inr (wings\<lparr>spiciness_level := 0\<rparr>) \<and>
   Dessert_low_sugar all_flags brownie = Inr (brownie\<lparr>sweetness_level := 4\<rparr>) \<and>
   Appetizer_dietaryAccommodations wings all_flags =
     and_then (Appetizer_vegetarian all_flags wings)
       (\<lambda>a1. Appetizer_gluten_free all_flags (a1\<lparr>spiciness_level := 0\<rparr>)) \<and>
   Dessert_dietaryAccommodations brownie all_flags =
     and_then (Dessert_nut_free all_flags brownie)
       (\<lambda>d1. Dessert_vegan all_flags (d1\<lparr>sweetness_level := 4\<rparr>)) \<and>
   Appetizer_dietaryAccommodations wings all_flags = Inr wings_adjusted \<and>
   spiciness_level wings_adjusted = 0 \<and>
   Dessert_dietaryAccommodations brownie all_flags = Inr brownie_adjusted \<and>
   sweetness_level brownie_adjusted = 4"
proof -
  have f: "low_sodium all_flags" "low_sugar all_flags"
    by (simp_all add: all_flags_def)
  have v: "spiciness_level wings = 1" "sweetness_level brownie = 7"
    by (simp_all add: wings_def brownie_def)
  from levels_reduced_and_clamped [of all_flags wings brownie wings_adjusted brownie_adjusted]
    wings_all_flags brownie_all_flags f v
  show ?thesis by (simp add: INT_MIN_def INT_MAX_def)
qed


subsection \<open>The vegetarian scan\<close>

lemma substitute_inner_no_match:
  assumes "in_range v i" "v ! nat i \<notin> set nvs"
  shows "substitute_inner nvs (v, i, c) = Inr (v, i, c)"
  using assms by (induction nvs) simp_all

lemma substitute_inner_overflow:
  assumes "in_range v i" "v ! nat i \<in> set nvs" "INT_MAX < c + 1"
  shows "substitute_inner nvs (v, i, c) = Inl SignedOverflow"
  using assms by (induction nvs) (auto simp: int_result_def)

lemma substitute_inner_match:
  assumes "in_range v i" "v ! nat i \<in> set nvs"
    and "''Beans'' \<notin> set nvs" "''Mushrooms'' \<notin> set nvs"
    and "0 \<le> c" "c + 1 \<le> INT_MAX"
    and "2 \<le> c \<longrightarrow> 1 \<le> i \<and> v ! nat (i - 1) \<notin> set nvs"
  shows "substitute_inner nvs (v, i, c) =
           Inr (if c = 0 then (v[nat i := ''Beans''], i, 1)
                else if c = 1 then (v[nat i := ''Mushrooms''], i, 2)
                else (erase v (nat i), i - 1, c + 1))"
  using assms
proof (induction nvs)
  case Nil
  then show ?case by simp
next
  case (Cons nv rest)
  have r: "nat i < length v" "0 \<le> i" using Cons.prems(1) by (auto simp: in_range_def)
  have ok: "int_result (c + 1) = Inr (c + 1)"
    using Cons.prems(5,6) by (simp add: int_result_def INT_MIN_def)
  show ?case
  proof (cases "v ! nat i = nv")
    case False
    with Cons show ?thesis by simp
  next
    case True
    consider "c = 0" | "c = 1" | "2 \<le> c" using Cons.prems(5) by linarith
    then show ?thesis
    proof cases
      case 1
      have "substitute_inner rest (v[nat i := ''Beans''], i, 1) = Inr (v[nat i := ''Beans''], i, 1)"
        using Cons.prems(3) r by (intro substitute_inner_no_match) (simp_all add: in_range_def)
      with True 1 ok Cons.prems(1) show ?thesis by simp
    next
      case 2
      have "substitute_inner rest (v[nat i := ''Mushrooms''], i, 2) =
              Inr (v[nat i := ''Mushrooms''], i, 2)"
        using Cons.prems(4) r by (intro substitute_inner_no_match) (simp_all add: in_range_def)
      with True 2 ok Cons.prems(1) show ?thesis by simp
    next
      case 3
      with Cons.prems(7) have i: "1 \<le> i" "v ! nat (i - 1) \<notin> set rest" by simp_all
      have "nat (i - 1) < nat i" using i by simp
      then have e: "erase v (nat i) ! nat (i - 1) = v ! nat (i - 1)"
        using r by (simp add: erase_def nth_append)
      have "length (erase v (nat i)) = length v - 1" using r by (simp add: erase_def)
      then have "in_range (erase v (nat i)) (i - 1)" using i r by (auto simp: in_range_def)
      then have "substitute_inner rest (erase v (nat i), i - 1, c + 1) =
              Inr (erase v (nat i), i - 1, c + 1)"
        using i e by (intro substitute_inner_no_match) simp_all
      with True 3 ok Cons.prems(1) show ?thesis by simp
    qed
  qed
qed

lemma substitute_outer_step:
  assumes "in_range v i" "substitute_inner nonVegIngredients (v, i, c) = Inr (v', i', c')"
  shows "substitute_outer (v, i, c) = substitute_outer (v', i' + 1, c')"
  using assms by (subst substitute_outer.simps) simp

lemma substitute_outer_error:
  assumes "in_range v i" "substitute_inner nonVegIngredients (v, i, c) = Inl e"
  shows "substitute_outer (v, i, c) = Inl e"
  using assms by (subst substitute_outer.simps) simp

lemma substitute_outer_done:
  assumes "\<not> in_range v i"
  shows "substitute_outer (v, i, c) = Inr (v, i, c)"
  using assms by (subst substitute_outer.simps) simp

lemma substitute_outer_scan:
  assumes "set pre \<inter> set nonVegIngredients = {}" "0 \<le> c" "c \<le> INT_MAX" "2 \<le> c \<longrightarrow> pre \<noteq> []"
  shows "substitute_outer (pre @ post, int (length pre), c) =
           (if c + matches post \<le> INT_MAX then
              Inr (pre @ substitution_scan (nat c) post,
                   int (length (pre @ substitution_scan (nat c) post)), c + matches post)
            else Inl SignedOverflow)"
  using assms
proof (induction post arbitrary: pre c)
  case Nil
  then show ?case by (simp add: substitute_outer_done in_range_def matches_def)
next
  case (Cons x xs)
  let ?v = "pre @ x # xs" and ?i = "int (length pre)"
  have r: "in_range ?v ?i" "?v ! nat ?i = x" by (simp_all add: in_range_def)
  have nb: "''Beans'' \<notin> set nonVegIngredients" "''Mushrooms'' \<notin> set nonVegIngredients"
    by (simp_all add: nonVegIngredients_def)
  show ?case
  proof (cases "x \<in> set nonVegIngredients")
    case False
    then have "substitute_inner nonVegIngredients (?v, ?i, c) = Inr (?v, ?i, c)"
      using r by (intro substitute_inner_no_match) simp_all
    from substitute_outer_step [OF r(1) this]
    have "substitute_outer (?v, ?i, c) =
        substitute_outer ((pre @ [x]) @ xs, int (length (pre @ [x])), c)"
      by (simp add: add.commute)
    also have "\<dots> = (if c + matches xs \<le> INT_MAX then
              Inr ((pre @ [x]) @ substitution_scan (nat c) xs,
                   int (length ((pre @ [x]) @ substitution_scan (nat c) xs)), c + matches xs)
            else Inl SignedOverflow)"
      using Cons.prems False by (intro Cons.IH) auto
    finally show ?thesis using False by (simp add: matches_def)
  next
    case True
    show ?thesis
    proof (cases "c + 1 \<le> INT_MAX")
      case False
      then have "substitute_inner nonVegIngredients (?v, ?i, c) = Inl SignedOverflow"
        using r True by (intro substitute_inner_overflow) simp_all
      moreover have "\<not> c + matches (x # xs) \<le> INT_MAX"
        using False True by (simp add: matches_def)
      ultimately show ?thesis using substitute_outer_error [OF r(1)] by simp
    next
      case ok: True
      have prev: "2 \<le> c \<longrightarrow> 1 \<le> ?i \<and> ?v ! nat (?i - 1) \<notin> set nonVegIngredients"
      proof
        assume "2 \<le> c"
        with Cons.prems(4) have ne: "pre \<noteq> []" by simp
        then have "?v ! nat (?i - 1) = last pre"
          by (simp add: nth_append last_conv_nth nat_diff_distrib')
        moreover have "last pre \<notin> set nonVegIngredients"
          using Cons.prems(1) last_in_set [OF ne] by blast
        moreover have "1 \<le> ?i" using ne by (simp add: Suc_le_eq)
        ultimately show "1 \<le> ?i \<and> ?v ! nat (?i - 1) \<notin> set nonVegIngredients"
          by simp
      qed
      have inner: "substitute_inner nonVegIngredients (?v, ?i, c) =
           Inr (if c = 0 then (?v[nat ?i := ''Beans''], ?i, 1)
                else if c = 1 then (?v[nat ?i := ''Mushrooms''], ?i, 2)
                else (erase ?v (nat ?i), ?i - 1, c + 1))"
        using r True nb Cons.prems(2) ok prev by (intro substitute_inner_match) simp_all
      have m: "matches (x # xs) = 1 + matches xs" using True by (simp add: matches_def)
      consider "c = 0" | "c = 1" | "2 \<le> c" using Cons.prems(2) by linarith
      then show ?thesis
      proof cases
        case 1
        from inner 1 have "substitute_inner nonVegIngredients (?v, ?i, c) =
            Inr (?v[nat ?i := ''Beans''], ?i, 1)" by simp
        from substitute_outer_step [OF r(1) this]
        have "substitute_outer (?v, ?i, c) =
            substitute_outer ((pre @ [''Beans'']) @ xs, int (length (pre @ [''Beans''])), 1)"
          by (simp add: add.commute)
        also have "\<dots> = (if 1 + matches xs \<le> INT_MAX then
              Inr ((pre @ [''Beans'']) @ substitution_scan (nat 1) xs,
                   int (length ((pre @ [''Beans'']) @ substitution_scan (nat 1) xs)),
                   1 + matches xs)
            else Inl SignedOverflow)"
          using Cons.prems nb by (intro Cons.IH) (auto simp: INT_MAX_def)
        finally have out: "substitute_outer (?v, ?i, c) = (if 1 + matches xs \<le> INT_MAX then
              Inr ((pre @ [''Beans'']) @ substitution_scan (nat 1) xs,
                   int (length ((pre @ [''Beans'']) @ substitution_scan (nat 1) xs)),
                   1 + matches xs)
            else Inl SignedOverflow)" .
        have "c + matches (x # xs) = 1 + matches xs" using m 1 by simp
        moreover have "substitution_scan (nat c) (x # xs) = ''Beans'' # substitution_scan (nat 1) xs"
          using True 1 by simp
        ultimately show ?thesis unfolding out by simp
      next
        case 2
        from inner 2 have "substitute_inner nonVegIngredients (?v, ?i, c) =
            Inr (?v[nat ?i := ''Mushrooms''], ?i, 2)" by simp
        from substitute_outer_step [OF r(1) this]
        have "substitute_outer (?v, ?i, c) =
            substitute_outer ((pre @ [''Mushrooms'']) @ xs, int (length (pre @ [''Mushrooms''])), 2)"
          by (simp add: add.commute)
        also have "\<dots> = (if 2 + matches xs \<le> INT_MAX then
              Inr ((pre @ [''Mushrooms'']) @ substitution_scan (nat 2) xs,
                   int (length ((pre @ [''Mushrooms'']) @ substitution_scan (nat 2) xs)),
                   2 + matches xs)
            else Inl SignedOverflow)"
          using Cons.prems nb by (intro Cons.IH) (auto simp: INT_MAX_def)
        finally have out: "substitute_outer (?v, ?i, c) = (if 2 + matches xs \<le> INT_MAX then
              Inr ((pre @ [''Mushrooms'']) @ substitution_scan (nat 2) xs,
                   int (length ((pre @ [''Mushrooms'']) @ substitution_scan (nat 2) xs)),
                   2 + matches xs)
            else Inl SignedOverflow)" .
        have "c + matches (x # xs) = 2 + matches xs" using m 2 by simp
        moreover have "substitution_scan (nat c) (x # xs) =
            ''Mushrooms'' # substitution_scan (nat 2) xs"
          using True 2 by simp
        ultimately show ?thesis unfolding out by simp
      next
        case 3
        then have ne: "pre \<noteq> []" using Cons.prems(4) by simp
        have "erase ?v (nat ?i) = pre @ xs" by (simp add: erase_def)
        with inner 3 have "substitute_inner nonVegIngredients (?v, ?i, c) =
            Inr (pre @ xs, ?i - 1, c + 1)" by simp
        from substitute_outer_step [OF r(1) this]
        have "substitute_outer (?v, ?i, c) =
            substitute_outer (pre @ xs, int (length pre), c + 1)"
          by simp
        also have "\<dots> = (if c + 1 + matches xs \<le> INT_MAX then
              Inr (pre @ substitution_scan (nat (c + 1)) xs,
                   int (length (pre @ substitution_scan (nat (c + 1)) xs)),
                   c + 1 + matches xs)
            else Inl SignedOverflow)"
          using Cons.prems ok ne by (intro Cons.IH) auto
        finally have out: "substitute_outer (?v, ?i, c) =
            (if c + 1 + matches xs \<le> INT_MAX then
              Inr (pre @ substitution_scan (nat (c + 1)) xs,
                   int (length (pre @ substitution_scan (nat (c + 1)) xs)),
                   c + 1 + matches xs)
            else Inl SignedOverflow)" .
        have n: "nat c \<noteq> 0" "nat c \<noteq> 1" using 3 by linarith+
        have "substitution_scan (nat c) (x # xs) = substitution_scan (Suc (nat c)) xs"
          using True n by simp
        also have "Suc (nat c) = nat (c + 1)" using 3 by linarith
        finally have "substitution_scan (nat c) (x # xs) = substitution_scan (nat (c + 1)) xs" .
        moreover have "c + matches (x # xs) = c + 1 + matches xs" using m by simp
        ultimately show ?thesis unfolding out by simp
      qed
    qed
  qed
qed

lemma substitute_non_vegetarian_scan:
  "substitute_non_vegetarian ings =
     (if matches ings \<le> INT_MAX then Inr (substitution_scan 0 ings) else Inl SignedOverflow)"
  using substitute_outer_scan [of "[]" 0 ings]
  by (simp add: substitute_non_vegetarian_def INT_MAX_def)

lemma matches_le_length: "matches v \<le> int (length v)"
  by (simp add: matches_def)

lemma substitute_non_vegetarian_Inr:
  assumes "substitute_non_vegetarian ings = Inr ings'"
  shows "ings' = substitution_scan 0 ings"
  using assms by (simp add: substitute_non_vegetarian_scan split: if_splits)

lemma Appetizer_scan:
  assumes "Appetizer_dietaryAccommodations a request = Inr a'" "DietaryRequest.vegetarian request"
  shows "if DietaryRequest.gluten_free request
         then remove_listed (\<lambda>x. x) gluten_ingredients (substitution_scan 0 (ingredients a)) =
                Inr (ingredients a')
         else ingredients a' = substitution_scan 0 (ingredients a)"
proof -
  from assms(1) obtain a1 a2 where b: "Appetizer_vegetarian request a = Inr a1"
    "Appetizer_low_sodium request a1 = Inr a2" "Appetizer_gluten_free request a2 = Inr a'"
    by (rule Appetizer_blocks)
  have "ingredients a1 = substitution_scan 0 (ingredients a)"
    by (rule Appetizer_vegetarian_cases [OF b(1)])
      (use assms(2) in \<open>simp_all add: substitute_non_vegetarian_Inr\<close>)
  moreover have "ingredients a2 = ingredients a1"
    by (rule Appetizer_low_sodium_cases [OF b(2)]) simp_all
  moreover have "if DietaryRequest.gluten_free request
         then remove_listed (\<lambda>x. x) gluten_ingredients (ingredients a2) = Inr (ingredients a')
         else ingredients a' = ingredients a2"
    by (rule Appetizer_gluten_free_cases [OF b(3)]) simp_all
  ultimately show ?thesis by (auto split: if_splits)
qed

lemma MainCourse_scan:
  assumes "MainCourse_dietaryAccommodations m request = Inr m'" "DietaryRequest.vegetarian request"
  shows "if vegan request
         then remove_listed (\<lambda>x. x) dairy_egg_ingredients (substitution_scan 0 (ingredients m)) =
                Inr (ingredients m')
         else ingredients m' = substitution_scan 0 (ingredients m)"
proof -
  from assms(1) obtain m1 m2 where b: "MainCourse_vegetarian request m = Inr m1"
    "MainCourse_vegan request m1 = Inr m2" "MainCourse_gluten_free request m2 = Inr m'"
    by (rule MainCourse_blocks)
  have "ingredients m1 = substitution_scan 0 (ingredients m)"
    by (rule MainCourse_vegetarian_cases [OF b(1)])
      (use assms(2) in \<open>simp_all add: substitute_non_vegetarian_Inr\<close>)
  moreover have "if vegan request
         then remove_listed (\<lambda>x. x) dairy_egg_ingredients (ingredients m1) = Inr (ingredients m2)
         else ingredients m2 = ingredients m1"
    by (rule MainCourse_vegan_cases [OF b(2)]) simp_all
  moreover have "ingredients m' = ingredients m2"
    by (rule MainCourse_gluten_free_cases [OF b(3)]) simp_all
  ultimately show ?thesis by (auto split: if_splits)
qed

lemma vegetarian_block_completes:
  assumes "DietaryRequest.vegetarian request"
  shows "int (length (ingredients a)) \<le> INT_MAX \<Longrightarrow>
           Appetizer_vegetarian request a =
             Inr (a\<lparr>ingredients := substitution_scan 0 (ingredients a), vegetarian := True\<rparr>)"
    and "int (length (ingredients m)) \<le> INT_MAX \<Longrightarrow>
           MainCourse_vegetarian request m =
             Inr (m\<lparr>ingredients := substitution_scan 0 (ingredients m), protein_type := ''Tofu''\<rparr>)"
proof -
  assume "int (length (ingredients a)) \<le> INT_MAX"
  with matches_le_length [of "ingredients a"] have "matches (ingredients a) \<le> INT_MAX" by simp
  then show "Appetizer_vegetarian request a =
             Inr (a\<lparr>ingredients := substitution_scan 0 (ingredients a), vegetarian := True\<rparr>)"
    using assms
    by (simp add: Appetizer_vegetarian_def substitute_non_vegetarian_scan and_then_def
        getIngredients_def setIngredients_def)
next
  assume "int (length (ingredients m)) \<le> INT_MAX"
  with matches_le_length [of "ingredients m"] have "matches (ingredients m) \<le> INT_MAX" by simp
  then show "MainCourse_vegetarian request m =
             Inr (m\<lparr>ingredients := substitution_scan 0 (ingredients m), protein_type := ''Tofu''\<rparr>)"
    using assms
    by (simp add: MainCourse_vegetarian_def substitute_non_vegetarian_scan and_then_def
        getIngredients_def setIngredients_def)
qed

lemma Appetizer_scan_example: "Appetizer_dietaryAccommodations
      (a\<lparr>ingredients := [''Chicken'', ''Rice'', ''Beef'', ''Fish'']\<rparr>) vegetarian_only =
     Inr (a\<lparr>ingredients := [''Beans'', ''Rice'', ''Mushrooms''], vegetarian := True\<rparr>)"
proof -
  have "substitute_non_vegetarian [''Chicken'', ''Rice'', ''Beef'', ''Fish''] = Inr [''Beans'', ''Rice'', ''Mushrooms'']"
    by code_simp
  then show ?thesis
  by (simp add: Appetizer_dietaryAccommodations_def Appetizer_vegetarian_def Appetizer_low_sodium_def
     Appetizer_gluten_free_def vegetarian_only_def and_then_def getIngredients_def setIngredients_def)
qed

lemma MainCourse_scan_example: "MainCourse_dietaryAccommodations
      (m\<lparr>ingredients := [''Chicken'', ''Rice'', ''Beef'', ''Fish'']\<rparr>) vegetarian_only =
     Inr (m\<lparr>ingredients := [''Beans'', ''Rice'', ''Mushrooms''], protein_type := ''Tofu''\<rparr>)"
proof -
  have "substitute_non_vegetarian [''Chicken'', ''Rice'', ''Beef'', ''Fish''] = Inr [''Beans'', ''Rice'', ''Mushrooms'']"
    by code_simp
  then show ?thesis
  by (simp add: MainCourse_dietaryAccommodations_def MainCourse_vegetarian_def MainCourse_vegan_def
     MainCourse_gluten_free_def vegetarian_only_def and_then_def getIngredients_def setIngredients_def)
qed

text \<open>
  C4. For every appetizer and every main course, the vegetarian block of
  \<open>dietaryAccommodations\<close> transforms the ingredient list as the single left-to-right scan
  of the specification does, with one running counter over the eight non-vegetarian names:
  the first match becomes Beans, the second Mushrooms, every later one is deleted. The
  block completes on every list of at most \<open>INT_MAX\<close> ingredients. Of a completed
  accommodation of a request with the vegetarian flag set, the ingredients are that scan
  of the old ones, or what the removal block that follows (gluten for an appetizer, dairy
  and egg for a main course) makes of it when its flag is set too. In particular Chicken,
  Rice, Beef, Fish become Beans, Rice, Mushrooms.
\<close>

theorem vegetarian_substitution:
  "(DietaryRequest.vegetarian request \<and> int (length (ingredients a)) \<le> INT_MAX \<longrightarrow>
      Appetizer_vegetarian request a =
        Inr (a\<lparr>ingredients := substitution_scan 0 (ingredients a), vegetarian := True\<rparr>)) \<and>
   (DietaryRequest.vegetarian request \<and> int (length (ingredients m)) \<le> INT_MAX \<longrightarrow>
      MainCourse_vegetarian request m =
        Inr (m\<lparr>ingredients := substitution_scan 0 (ingredients m), protein_type := ''Tofu''\<rparr>)) \<and>
   (Appetizer_dietaryAccommodations a request = Inr a' \<and> DietaryRequest.vegetarian request \<longrightarrow>
      (if DietaryRequest.gluten_free request
       then remove_listed (\<lambda>x. x) gluten_ingredients (substitution_scan 0 (ingredients a)) =
              Inr (ingredients a')
       else ingredients a' = substitution_scan 0 (ingredients a))) \<and>
   (MainCourse_dietaryAccommodations m request = Inr m' \<and> DietaryRequest.vegetarian request \<longrightarrow>
      (if vegan request
       then remove_listed (\<lambda>x. x) dairy_egg_ingredients (substitution_scan 0 (ingredients m)) =
              Inr (ingredients m')
       else ingredients m' = substitution_scan 0 (ingredients m))) \<and>
   Appetizer_dietaryAccommodations
       (a\<lparr>ingredients := [''Chicken'', ''Rice'', ''Beef'', ''Fish'']\<rparr>) vegetarian_only =
     Inr (a\<lparr>ingredients := [''Beans'', ''Rice'', ''Mushrooms''], vegetarian := True\<rparr>) \<and>
   MainCourse_dietaryAccommodations
       (m\<lparr>ingredients := [''Chicken'', ''Rice'', ''Beef'', ''Fish'']\<rparr>) vegetarian_only =
     Inr (m\<lparr>ingredients := [''Beans'', ''Rice'', ''Mushrooms''], protein_type := ''Tofu''\<rparr>)"
  using vegetarian_block_completes(1) [of request a] vegetarian_block_completes(2) [of request m]
    Appetizer_scan [of a request a']
    MainCourse_scan [of m request m'] Appetizer_scan_example [of a] MainCourse_scan_example [of m]
  by blast

theorem vegetarian_substitution_witness:
  "DietaryRequest.vegetarian all_flags \<and> int (length (ingredients wings)) \<le> INT_MAX \<and>
   Appetizer_vegetarian all_flags wings =
     Inr (wings\<lparr>ingredients := [''Beans'', ''Flour'', ''Mushrooms'', ''Salt''],
               vegetarian := True\<rparr>) \<and>
   int (length (ingredients steak)) \<le> INT_MAX \<and>
   MainCourse_vegetarian all_flags steak =
     Inr (steak\<lparr>ingredients := [''Beans'', ''Butter'', ''Mushrooms'', ''Pepper''],
               protein_type := ''Tofu''\<rparr>) \<and>
   Appetizer_dietaryAccommodations wings all_flags = Inr wings_adjusted \<and>
   DietaryRequest.gluten_free all_flags \<and>
   remove_listed (\<lambda>x. x) gluten_ingredients [''Beans'', ''Flour'', ''Mushrooms'', ''Salt''] =
     Inr (ingredients wings_adjusted) \<and>
   MainCourse_dietaryAccommodations steak all_flags = Inr steak_adjusted \<and>
   vegan all_flags \<and>
   remove_listed (\<lambda>x. x) dairy_egg_ingredients [''Beans'', ''Butter'', ''Mushrooms'', ''Pepper''] =
     Inr (ingredients steak_adjusted)"
proof -
  have f: "DietaryRequest.vegetarian all_flags" "DietaryRequest.gluten_free all_flags"
    "vegan all_flags"
    by (simp_all add: all_flags_def)
  have l: "int (length (ingredients wings)) \<le> INT_MAX"
    "int (length (ingredients steak)) \<le> INT_MAX"
    by (simp_all add: wings_def steak_def INT_MAX_def)
  have s: "substitution_scan 0 (ingredients wings) = [''Beans'', ''Flour'', ''Mushrooms'', ''Salt'']"
    "substitution_scan 0 (ingredients steak) = [''Beans'', ''Butter'', ''Mushrooms'', ''Pepper'']"
    by (simp_all add: wings_def steak_def nonVegIngredients_def)
  from vegetarian_substitution [of all_flags wings steak wings_adjusted steak_adjusted]
    f l s wings_all_flags steak_all_flags
  show ?thesis by simp
qed


section \<open>Properties of the kitchen\<close>

subsection \<open>The bag\<close>

lemma those_map_Some:
  "those (map h ps) = Some ds \<longleftrightarrow> set ps \<subseteq> dom h \<and> ds = map (\<lambda>p. the (h p)) ps"
proof (induction ps arbitrary: ds)
  case Nil
  then show ?case by auto
next
  case (Cons p ps)
  show ?case
  proof (cases "h p")
    case None
    then show ?thesis by (auto simp: dom_def)
  next
    case (Some d)
    then show ?thesis using Cons.IH by (cases "those (map h ps)") (auto simp: dom_def)
  qed
qed

lemma aggregates_consistent_iff:
  "aggregates_consistent h k \<longleftrightarrow>
     item_count k \<le> length (items k) \<and> set (held k) \<subseteq> dom h \<and>
     total_prep_time k = prep_sum h (mset (held k)) \<and>
     count_elaborate k = elaborate_number h (mset (held k))"
proof -
  have s: "sum_list (map (dish_getPrepTime \<circ> (\<lambda>p. the (h p))) ps) = prep_sum h (mset ps)"
    for ps
    unfolding prep_sum_def by (induction ps) simp_all
  have c: "int (length (filter (is_elaborate \<circ> (\<lambda>p. the (h p))) ps)) =
      elaborate_number h (mset ps)"
    for ps
    unfolding elaborate_number_def by (induction ps) simp_all
  show ?thesis
  proof (cases "held_dishes h k")
    case None
    then have "\<not> set (held k) \<subseteq> dom h"
      using those_map_Some [of h "held k"] by (auto simp: held_dishes_def)
    with None show ?thesis by (simp add: aggregates_consistent_def)
  next
    case (Some ds)
    then have "set (held k) \<subseteq> dom h" "ds = map (\<lambda>p. the (h p)) (held k)"
      using those_map_Some [of h "held k" ds] by (simp_all add: held_dishes_def)
    with Some show ?thesis
      by (simp add: aggregates_consistent_def recomputed_prep_time_sum_def
          recomputed_elaborate_count_def s c)
  qed
qed

lemma add_True:
  assumes "add admits b x = (True, b')" "item_count b \<le> length (items b)"
  shows "held b' = held b @ [x]" "item_count b' = Suc (item_count b)"
    "item_count b' \<le> length (items b')" "more b' = more b"
  using assms by (auto simp: add_def held_def split: if_splits)

lemma add_False:
  assumes "add admits b x = (False, b')"
  shows "b' = b"
  using assms by (auto simp: add_def split: if_splits)

lemma mset_take_update_last:
  assumes "f < length xs"
  shows "mset (take (length xs - 1) (xs[f := last xs])) = mset xs - {#xs ! f#}"
proof -
  from assms have ne: "xs \<noteq> []" by auto
  define ys l where "ys = butlast xs" and "l = last xs"
  then have xs: "xs = ys @ [l]" using ne by simp
  show ?thesis
  proof (cases "f < length ys")
    case True
    then have "take (length xs - 1) (xs[f := last xs]) = ys[f := l]"
      by (simp add: xs list_update_append)
    moreover have "ys ! f \<in># mset ys" using True by simp
    ultimately show ?thesis using True by (simp add: xs mset_update nth_append)
  next
    case False
    with assms have "f = length ys" by (simp add: xs)
    then show ?thesis by (simp add: xs)
  qed
qed

lemma length_takeWhile_neq:
  "x \<in> set xs \<Longrightarrow> length (takeWhile (\<lambda>y. y \<noteq> x) xs) < length xs"
  by (induction xs) auto

lemma getIndexOf_found:
  assumes "x \<in> set (held b)"
  shows "0 \<le> getIndexOf b x" "nat (getIndexOf b x) < length (held b)"
    "held b ! nat (getIndexOf b x) = x"
    "\<forall>j < nat (getIndexOf b x). held b ! j \<noteq> x"
proof -
  let ?n = "length (takeWhile (\<lambda>y. y \<noteq> x) (held b))"
  have g: "getIndexOf b x = int ?n" using assms by (simp add: getIndexOf_def)
  have lt: "?n < length (held b)" using assms by (rule length_takeWhile_neq)
  show "0 \<le> getIndexOf b x" by (simp add: g)
  show "nat (getIndexOf b x) < length (held b)" using lt by (simp add: g)
  show "held b ! nat (getIndexOf b x) = x"
    using nth_length_takeWhile [OF lt] by (simp add: g)
  show "\<forall>j < nat (getIndexOf b x). held b ! j \<noteq> x"
    using nth_mem [of _ "takeWhile (\<lambda>y. y \<noteq> x) (held b)"]
    by (auto simp: g takeWhile_nth dest!: set_takeWhileD)
qed

lemma remove_False:
  assumes "remove b x = (False, b')"
  shows "b' = b"
  using assms by (auto simp: remove_def Let_def split: if_splits)

lemma remove_True:
  assumes "remove b x = (True, b')" "item_count b \<le> length (items b)"
  shows "x \<in> set (held b)" "mset (held b') = mset (held b) - {#x#}"
    "item_count b' = item_count b - 1" "item_count b' \<le> length (items b')" "more b' = more b"
    "b' = b\<lparr>items := (items b)[nat (getIndexOf b x) := items b ! (item_count b - 1)],
             item_count := item_count b - 1\<rparr>"
proof -
  from assms(1) have c: "\<not> isEmpty b" "getIndexOf b x > - 1"
    and b': "b' = b\<lparr>items := (items b)[nat (getIndexOf b x) := items b ! (item_count b - 1)],
                    item_count := item_count b - 1\<rparr>"
    by (auto simp: remove_def Let_def split: if_splits)
  from c(2) show x: "x \<in> set (held b)" by (auto simp: getIndexOf_def split: if_splits)
  show "b' = b\<lparr>items := (items b)[nat (getIndexOf b x) := items b ! (item_count b - 1)],
             item_count := item_count b - 1\<rparr>" by (rule b')
  show "item_count b' = item_count b - 1" "more b' = more b" by (simp_all add: b')
  show "item_count b' \<le> length (items b')" using assms(2) by (simp add: b')
  let ?f = "nat (getIndexOf b x)" and ?xs = "held b"
  have lx: "length ?xs = item_count b" using assms(2) by (simp add: held_def)
  have f: "?f < length ?xs" "?xs ! ?f = x" using getIndexOf_found [OF x] by simp_all
  have ne: "?xs \<noteq> []" using f(1) by auto
  have "last ?xs = items b ! (item_count b - 1)"
    using ne lx by (simp add: last_conv_nth held_def)
  then have "held b' = take (length ?xs - 1) (?xs[?f := last ?xs])"
    using f(1) lx by (simp add: b' held_def take_update_swap min_def)
  with mset_take_update_last [OF f(1)] f(2)
  show "mset (held b') = mset (held b) - {#x#}" by simp
qed

subsection \<open>One call\<close>

lemma and_then_Inl: "and_then r f = Inl e \<longleftrightarrow> r = Inl e \<or> (\<exists>x. r = Inr x \<and> f x = Inl e)"
  by (cases r) (simp_all add: and_then_def)

lemma int_result_Inr: "int_result v = Inr w \<longleftrightarrow> w = v \<and> INT_MIN \<le> v \<and> v \<le> INT_MAX"
  by (auto simp: int_result_def)

lemma deref_Inr: "deref h p = Inr d \<longleftrightarrow> h p = Some d"
  by (simp add: deref_def split: option.splits)

lemma add_eq:
  "add admits b x = (ok, b') \<Longrightarrow>
     (if ok then admits (held b) x \<and>
        b' = b\<lparr>items := held b @ [x] @ drop (Suc (item_count b)) (items b),
                item_count := Suc (item_count b)\<rparr>
      else b' = b)"
  by (auto simp: add_def split: if_splits)

lemma newOrder_cases:
  assumes "newOrder admits h k p = Inr (ok, k')"
  obtains (rejected) "\<not> ok" "k' = k"
  | (taken) k1 d where "ok" "add admits k p = (True, k1)" "h p = Some d"
      "INT_MIN \<le> total_prep_time k1 + dish_getPrepTime d"
      "total_prep_time k1 + dish_getPrepTime d \<le> INT_MAX"
      "k' = k1\<lparr>total_prep_time := total_prep_time k1 + dish_getPrepTime d,
              count_elaborate := (if is_elaborate d then count_elaborate k1 + 1
                                  else count_elaborate k1)\<rparr>"
proof (cases "add admits k p")
  case (Pair added k1)
  show ?thesis
  proof (cases added)
    case False
    with Pair assms have "\<not> ok" "k' = k1" by (simp_all add: newOrder_def)
    moreover from Pair False have "k1 = k" by (simp add: add_False)
    ultimately show ?thesis by (intro rejected) simp_all
  next
    case True
    with Pair assms obtain d t where d: "h p = Some d"
      and t: "int_result (total_prep_time k1 + dish_getPrepTime d) = Inr t"
      and r: "(if length (dish_getIngredients d) \<ge> 5 \<and> dish_getPrepTime d \<ge> 60 then
              and_then (int_result (count_elaborate (k1\<lparr>total_prep_time := t\<rparr>) + 1)) (\<lambda>c.
                Inr (True, k1\<lparr>total_prep_time := t, count_elaborate := c\<rparr>))
            else Inr (True, k1\<lparr>total_prep_time := t\<rparr>)) = Inr (ok, k')"
      by (auto simp: newOrder_def and_then_Inr deref_Inr Let_def)
    from t have t': "t = total_prep_time k1 + dish_getPrepTime d"
      "INT_MIN \<le> total_prep_time k1 + dish_getPrepTime d"
      "total_prep_time k1 + dish_getPrepTime d \<le> INT_MAX"
      by (simp_all add: int_result_Inr)
    from r have "ok \<and> k' = k1\<lparr>total_prep_time := t,
              count_elaborate := (if is_elaborate d then count_elaborate k1 + 1
                                  else count_elaborate k1)\<rparr>"
      by (auto simp: is_elaborate_def and_then_Inr int_result_Inr split: if_splits)
    with Pair True d t' show ?thesis by (intro taken [of k1 d]) simp_all
  qed
qed

lemma serveDish_cases:
  assumes "serveDish h k p = Inr (ok, k')"
  obtains (not_served) "\<not> ok" "k' = k"
  | (served) k1 d where "ok" "remove k p = (True, k1)" "h p = Some d"
      "INT_MIN \<le> total_prep_time k1 - dish_getPrepTime d"
      "total_prep_time k1 - dish_getPrepTime d \<le> INT_MAX"
      "k' = k1\<lparr>total_prep_time := total_prep_time k1 - dish_getPrepTime d,
              count_elaborate := (if is_elaborate d then count_elaborate k1 - 1
                                  else count_elaborate k1)\<rparr>"
proof (cases "getCurrentSize k = 0")
  case True
  with assms have "\<not> ok" "k' = k" by (simp_all add: serveDish_def)
  then show ?thesis by (rule not_served)
next
  case nonempty: False
  show ?thesis
  proof (cases "remove k p")
    case (Pair removed k1)
    show ?thesis
    proof (cases removed)
      case False
      with Pair assms nonempty have "\<not> ok" "k' = k1" by (simp_all add: serveDish_def)
      moreover from Pair False have "k1 = k" by (simp add: remove_False)
      ultimately show ?thesis by (intro not_served) simp_all
    next
      case True
      with Pair assms nonempty obtain d t where d: "h p = Some d"
        and t: "int_result (total_prep_time k1 - dish_getPrepTime d) = Inr t"
        and r: "(if length (dish_getIngredients d) \<ge> 5 \<and> dish_getPrepTime d \<ge> 60 then
              and_then (int_result (count_elaborate (k1\<lparr>total_prep_time := t\<rparr>) - 1)) (\<lambda>c.
                Inr (True, k1\<lparr>total_prep_time := t, count_elaborate := c\<rparr>))
            else Inr (True, k1\<lparr>total_prep_time := t\<rparr>)) = Inr (ok, k')"
        by (auto simp: serveDish_def and_then_Inr deref_Inr Let_def)
      from t have t': "t = total_prep_time k1 - dish_getPrepTime d"
        "INT_MIN \<le> total_prep_time k1 - dish_getPrepTime d"
        "total_prep_time k1 - dish_getPrepTime d \<le> INT_MAX"
        by (simp_all add: int_result_Inr)
      from r have "ok \<and> k' = k1\<lparr>total_prep_time := t,
              count_elaborate := (if is_elaborate d then count_elaborate k1 - 1
                                  else count_elaborate k1)\<rparr>"
        by (auto simp: is_elaborate_def and_then_Inr int_result_Inr split: if_splits)
      with Pair True d t' show ?thesis by (intro served [of k1 d]) simp_all
    qed
  qed
qed

lemma prep_sum_add [simp]:
  "prep_sum h (add_mset p A) = dish_getPrepTime (the (h p)) + prep_sum h A"
  by (simp add: prep_sum_def)

lemma elaborate_number_add [simp]:
  "elaborate_number h (add_mset p A) =
     (if is_elaborate (the (h p)) then 1 else 0) + elaborate_number h A"
  by (simp add: elaborate_number_def)

lemma newOrder_consistent:
  assumes "aggregates_consistent h k" "newOrder admits h k p = Inr (ok, k')"
  shows "aggregates_consistent h k'"
  using assms(2)
proof (cases rule: newOrder_cases)
  case rejected
  with assms(1) show ?thesis by simp
next
  case (taken k1 d)
  from assms(1) have k: "item_count k \<le> length (items k)" "set (held k) \<subseteq> dom h"
    "total_prep_time k = prep_sum h (mset (held k))"
    "count_elaborate k = elaborate_number h (mset (held k))"
    by (simp_all add: aggregates_consistent_iff)
  from add_eq [OF taken(2)]
  have k1: "k1 = k\<lparr>items := held k @ [p] @ drop (Suc (item_count k)) (items k),
                   item_count := Suc (item_count k)\<rparr>" by simp
  have h1: "held k1 = held k @ [p]" using k(1) by (simp add: k1 held_def)
  have "held k' = held k @ [p]" using h1 by (simp add: taken(6) held_def)
  moreover have "item_count k' \<le> length (items k')" using k(1) by (simp add: taken(6) k1 held_def)
  moreover have "total_prep_time k' = total_prep_time k + dish_getPrepTime d"
    "count_elaborate k' = (if is_elaborate d then count_elaborate k + 1 else count_elaborate k)"
    by (simp_all add: taken(6) k1)
  ultimately show ?thesis using k taken(3) by (auto simp: aggregates_consistent_iff)
qed

lemma serveDish_consistent:
  assumes "aggregates_consistent h k" "serveDish h k p = Inr (ok, k')"
  shows "aggregates_consistent h k'"
  using assms(2)
proof (cases rule: serveDish_cases)
  case not_served
  with assms(1) show ?thesis by simp
next
  case (served k1 d)
  from assms(1) have k: "item_count k \<le> length (items k)" "set (held k) \<subseteq> dom h"
    "total_prep_time k = prep_sum h (mset (held k))"
    "count_elaborate k = elaborate_number h (mset (held k))"
    by (simp_all add: aggregates_consistent_iff)
  note r = remove_True [OF served(2) k(1)]
  from r(1,2) have A: "mset (held k) = add_mset p (mset (held k1))" by simp
  have "set (held k1) \<subseteq> set (held k)"
    using A by (metis insert_iff set_mset_add_mset_insert set_mset_mset subsetI)
  moreover have "held k' = held k1" by (simp add: served(6) held_def)
  moreover have "item_count k' \<le> length (items k')" using r(4) by (simp add: served(6))
  moreover have "total_prep_time k' = total_prep_time k - dish_getPrepTime d"
    "count_elaborate k' = (if is_elaborate d then count_elaborate k - 1 else count_elaborate k)"
    by (simp_all add: served(6) r(6))
  ultimately show ?thesis using k served(3) by (auto simp: aggregates_consistent_iff A)
qed

subsection \<open>Every sequence of orders and serves\<close>

lemma Kitchen_default_consistent: "aggregates_consistent h Kitchen_default"
  by (simp add: aggregates_consistent_def Kitchen_default_def held_dishes_def held_def
      recomputed_prep_time_sum_def recomputed_elaborate_count_def)

lemma run_calls_consistent:
  assumes "aggregates_consistent h k" "run_calls admits h k calls = Inr k'"
  shows "aggregates_consistent h k'"
  using assms
proof (induction calls arbitrary: k)
  case Nil
  then show ?case by simp
next
  case (Cons c cs)
  from Cons.prems(2) obtain ok k1 where 1: "run_call admits h k c = Inr (ok, k1)"
    and 2: "run_calls admits h k1 cs = Inr k'"
    by (auto simp: and_then_Inr)
  have "aggregates_consistent h k1"
  proof (cases c)
    case (NewOrder p)
    with 1 Cons.prems(1) show ?thesis by (auto intro: newOrder_consistent)
  next
    case (ServeDish p)
    with 1 Cons.prems(1) show ?thesis by (auto intro: serveDish_consistent)
  qed
  then show ?case using 2 by (rule Cons.IH)
qed

lemma consistent_observed:
  assumes "aggregates_consistent h k"
  shows "\<exists>ds. held_dishes h k = Some ds \<and>
              getPrepTimeSum k = recomputed_prep_time_sum ds \<and>
              elaborateDishCount k = recomputed_elaborate_count ds"
proof -
  from assms obtain ds where ds: "held_dishes h k = Some ds"
    "total_prep_time k = recomputed_prep_time_sum ds"
    "count_elaborate k = recomputed_elaborate_count ds"
    by (auto simp: aggregates_consistent_def split: option.splits)
  have "ds = []" if "getCurrentSize k = 0"
  proof -
    from that have "held k = []" by (simp add: getCurrentSize_def held_def)
    with ds(1) show ?thesis by (simp add: held_dishes_def)
  qed
  then have "getPrepTimeSum k = recomputed_prep_time_sum ds"
    "elaborateDishCount k = recomputed_elaborate_count ds"
    using ds(2,3)
    by (auto simp: getPrepTimeSum_def elaborateDishCount_def recomputed_prep_time_sum_def
        recomputed_elaborate_count_def)
  with ds(1) show ?thesis by simp
qed

lemma failed_call_unchanged:
  "(newOrder admits h k p = Inr (False, k') \<longrightarrow> k' = k) \<and>
   (serveDish h k p = Inr (False, k') \<longrightarrow> k' = k)"
proof (intro conjI impI)
  assume "newOrder admits h k p = Inr (False, k')"
  then show "k' = k" by (cases rule: newOrder_cases) simp_all
next
  assume "serveDish h k p = Inr (False, k')"
  then show "k' = k" by (cases rule: serveDish_cases) simp_all
qed

text \<open>
  C5. A default-constructed kitchen is consistent, and after every sequence of
  \<open>newOrder\<close> and \<open>serveDish\<close> calls from a consistent kitchen, whether each call adds or
  removes a dish or not, \<open>getPrepTimeSum()\<close> is the sum of the preparation times of the
  dishes held and \<open>elaborateDishCount()\<close> is the number of dishes held with at least 5
  ingredients and at least 60 minutes of preparation. A \<open>newOrder\<close> or \<open>serveDish\<close> that
  returns false leaves the whole kitchen, so the total and the counter, as it was. This
  holds for every policy \<open>admits\<close> of the bag.
\<close>

theorem aggregates_after_calls:
  "aggregates_consistent h Kitchen_default \<and>
   (aggregates_consistent h k0 \<and> run_calls admits h k0 calls = Inr k \<longrightarrow>
      aggregates_consistent h k \<and>
      (\<exists>ds. held_dishes h k = Some ds \<and>
            getPrepTimeSum k = recomputed_prep_time_sum ds \<and>
            elaborateDishCount k = recomputed_elaborate_count ds)) \<and>
   (newOrder admits h k0 p = Inr (False, k') \<longrightarrow> k' = k0) \<and>
   (serveDish h k0 p = Inr (False, k') \<longrightarrow> k' = k0)"
  using Kitchen_default_consistent [of h] run_calls_consistent [of h k0 admits calls k]
    consistent_observed [of h k] failed_call_unchanged [of admits h k0 p k']
  by blast

theorem aggregates_after_calls_witness:
  "aggregates_consistent two_dishes Kitchen_default \<and>
   run_calls (capacity 1) two_dishes Kitchen_default [NewOrder 0, NewOrder 1, ServeDish 7] =
     Inr kitchen_with_wings \<and>
   aggregates_consistent two_dishes kitchen_with_wings \<and>
   held_dishes two_dishes kitchen_with_wings = Some [AppetizerObj wings] \<and>
   getPrepTimeSum kitchen_with_wings = recomputed_prep_time_sum [AppetizerObj wings] \<and>
   elaborateDishCount kitchen_with_wings = recomputed_elaborate_count [AppetizerObj wings] \<and>
   newOrder (capacity 1) two_dishes kitchen_with_wings 1 = Inr (False, kitchen_with_wings) \<and>
   serveDish two_dishes kitchen_with_wings 1 = Inr (False, kitchen_with_wings)"
proof -
  have r: "run_calls (capacity 1) two_dishes Kitchen_default [NewOrder 0, NewOrder 1, ServeDish 7] =
     Inr kitchen_with_wings"
    by code_simp
  have d: "held_dishes two_dishes kitchen_with_wings = Some [AppetizerObj wings]"
    by code_simp
  have f: "newOrder (capacity 1) two_dishes kitchen_with_wings 1 = Inr (False, kitchen_with_wings)"
    "serveDish two_dishes kitchen_with_wings 1 = Inr (False, kitchen_with_wings)"
    by code_simp+
  from aggregates_after_calls [of two_dishes Kitchen_default "capacity 1"
      "[NewOrder 0, NewOrder 1, ServeDish 7]" kitchen_with_wings 1 Kitchen_default]
    aggregates_after_calls [of two_dishes kitchen_with_wings "capacity 1" "[]"
      kitchen_with_wings 1 kitchen_with_wings]
    r d f
  show ?thesis by simp
qed

subsection \<open>Releasing the dishes below a preparation time\<close>

lemma remove_held:
  assumes "x \<in> set (held b)"
  obtains b' where "remove b x = (True, b')"
proof -
  from assms have "held b \<noteq> []" by auto
  then have "\<not> isEmpty b" by (cases "item_count b") (auto simp: isEmpty_def held_def)
  moreover have "getIndexOf b x > - 1" using getIndexOf_found(1) [OF assms] by simp
  ultimately show ?thesis using that by (simp add: remove_def Let_def)
qed

lemma prep_sum_nonneg:
  assumes "\<forall>p \<in># A. 0 \<le> dish_getPrepTime (the (h p))"
  shows "0 \<le> prep_sum h A"
  using assms by (induction A) (simp_all add: prep_sum_def)

lemma elaborate_number_le: "elaborate_number h A \<le> int (size A)"
  unfolding elaborate_number_def by simp

lemma elaborate_number_nonneg: "0 \<le> elaborate_number h A"
  unfolding elaborate_number_def by simp

lemma serveDish_held:
  assumes "aggregates_consistent h k" "p \<in> set (held k)"
  shows "(\<exists>k'. serveDish h k p = Inr (True, k')) \<or>
         (serveDish h k p = Inl SignedOverflow \<and> \<not> no_overflow h k)"
proof -
  from assms(1) have k: "item_count k \<le> length (items k)" "set (held k) \<subseteq> dom h"
    "total_prep_time k = prep_sum h (mset (held k))"
    "count_elaborate k = elaborate_number h (mset (held k))"
    by (simp_all add: aggregates_consistent_iff)
  from assms(2) obtain k1 where rm: "remove k p = (True, k1)" by (rule remove_held)
  note r = remove_True [OF rm k(1)]
  from r(1,2) have A: "mset (held k) = add_mset p (mset (held k1))" by simp
  from assms(2) k(2) obtain d where d: "h p = Some d" by auto
  have ne: "getCurrentSize k \<noteq> 0"
    using assms(2) by (cases "item_count k") (auto simp: getCurrentSize_def held_def)
  have tot: "total_prep_time k1 = total_prep_time k" "count_elaborate k1 = count_elaborate k"
    by (simp_all add: r(6))
  let ?t = "total_prep_time k - dish_getPrepTime d"
  let ?c = "count_elaborate k - 1"
  have safe_t: "INT_MIN \<le> ?t \<and> ?t \<le> INT_MAX" if "no_overflow h k"
  proof -
    from that have nn: "\<forall>q \<in> set (held k). 0 \<le> dish_getPrepTime (the (h q))"
      and le: "total_prep_time k \<le> INT_MAX" by (simp_all add: no_overflow_def)
    have "\<forall>q \<in># mset (held k1). 0 \<le> dish_getPrepTime (the (h q))"
      using nn A by (metis insert_iff set_mset_add_mset_insert set_mset_mset)
    then have "0 \<le> prep_sum h (mset (held k1))" by (rule prep_sum_nonneg)
    moreover have "0 \<le> dish_getPrepTime d" using nn assms(2) d by force
    ultimately show ?thesis using le k(3) d by (simp add: A INT_MIN_def)
  qed
  have safe_c: "INT_MIN \<le> ?c \<and> ?c \<le> INT_MAX" if "no_overflow h k" "is_elaborate d"
  proof -
    have "count_elaborate k = 1 + elaborate_number h (mset (held k1))"
      using k(4) that(2) d by (simp add: A)
    moreover have "0 \<le> elaborate_number h (mset (held k1))" by (rule elaborate_number_nonneg)
    moreover have "count_elaborate k \<le> int (item_count k)"
      using elaborate_number_le [of h "mset (held k)"] k(1,4) by (simp add: held_def)
    moreover from that have "int (item_count k) \<le> INT_MAX" by (simp add: no_overflow_def)
    ultimately show ?thesis by (simp add: INT_MIN_def)
  qed
  have e: "(length (dish_getIngredients d) \<ge> 5 \<and> dish_getPrepTime d \<ge> 60) = is_elaborate d"
    by (simp add: is_elaborate_def)
  show ?thesis
  proof (cases "INT_MIN \<le> ?t \<and> ?t \<le> INT_MAX")
    case False
    then have "serveDish h k p = Inl SignedOverflow"
      using ne rm d tot by (auto simp: serveDish_def and_then_def deref_def int_result_def)
    with False safe_t show ?thesis by blast
  next
    case t: True
    show ?thesis
    proof (cases "is_elaborate d")
      case False
      then have "\<exists>k'. serveDish h k p = Inr (True, k')"
        using ne rm d tot t e
        by (simp add: serveDish_def and_then_def deref_def int_result_def Let_def)
      then show ?thesis by blast
    next
      case el: True
      show ?thesis
      proof (cases "INT_MIN \<le> ?c \<and> ?c \<le> INT_MAX")
        case False
        then have "serveDish h k p = Inl SignedOverflow"
          using ne rm d tot t e el
          by (auto simp: serveDish_def and_then_def deref_def int_result_def Let_def)
        with False safe_c el show ?thesis by blast
      next
        case True
        then have "\<exists>k'. serveDish h k p = Inr (True, k')"
          using ne rm d tot t e el
          by (simp add: serveDish_def and_then_def deref_def int_result_def Let_def)
        then show ?thesis by blast
      qed
    qed
  qed
qed

lemma release_invariant_keep:
  assumes "release_invariant h t orig j kc r" "j < length orig"
    "\<not> prep_below h t (orig ! j)"
  shows "release_invariant h t orig (Suc j) kc r"
proof -
  have "take (Suc j) orig = take j orig @ [orig ! j]"
    using assms(2) by (rule take_Suc_conv_app_nth)
  moreover have "drop j orig = orig ! j # drop (Suc j) orig"
    using assms(2) by (rule Cons_nth_drop_Suc [symmetric])
  ultimately show ?thesis
    using assms(1,3) by (simp add: release_invariant_def)
qed

lemma serveDish_no_overflow:
  assumes "aggregates_consistent h k" "p \<in> set (held k)" "serveDish h k p = Inr (True, k')"
    "no_overflow h k"
  shows "no_overflow h k'"
  using assms(3)
proof (cases rule: serveDish_cases)
  case not_served
  then show ?thesis by simp
next
  case (served k1 d)
  from assms(1) have wf: "item_count k \<le> length (items k)"
    by (simp add: aggregates_consistent_iff)
  note r = remove_True [OF served(2) wf]
  from r(1,2) have A: "mset (held k) = add_mset p (mset (held k1))" by simp
  then have sub: "set (held k1) \<subseteq> set (held k)"
    by (metis insert_iff set_mset_add_mset_insert set_mset_mset subsetI)
  have "held k' = held k1" "item_count k' = item_count k - 1"
    "total_prep_time k' = total_prep_time k - dish_getPrepTime d"
    by (simp_all add: served(6) r(6) held_def)
  moreover have "0 \<le> dish_getPrepTime d"
    using assms(2,4) served(3) by (force simp: no_overflow_def)
  ultimately show ?thesis using assms(4) sub by (auto simp: no_overflow_def)
qed

lemma release_invariant_serve:
  assumes "release_invariant h t orig j kc r" "j < length orig"
    "prep_below h t (orig ! j)" "serveDish h kc (orig ! j) = Inr (True, k')"
  shows "release_invariant h t orig (Suc j) k' (r + 1)"
proof -
  let ?p = "orig ! j"
  from assms(1) have inv: "aggregates_consistent h kc" "length orig \<le> length (items kc)"
    "\<forall>m. j \<le> m \<and> m < length orig \<longrightarrow> items kc ! m = orig ! m"
    "mset (held kc) =
       mset (filter (\<lambda>p. \<not> prep_below h t p) (take j orig)) + mset (drop j orig)"
    "r = int (length (filter (prep_below h t) (take j orig)))"
    by (simp_all add: release_invariant_def)
  from inv(1) have wf: "item_count kc \<le> length (items kc)"
    by (simp add: aggregates_consistent_iff)
  have tk: "take (Suc j) orig = take j orig @ [?p]"
    using assms(2) by (rule take_Suc_conv_app_nth)
  have dr: "drop j orig = ?p # drop (Suc j) orig"
    using assms(2) by (rule Cons_nth_drop_Suc [symmetric])
  have mem: "?p \<in> set (held kc)"
  proof -
    have "?p \<in># mset (held kc)" unfolding inv(4) dr by simp
    then show ?thesis by simp
  qed
  from assms(4) obtain k1 d where s: "remove kc ?p = (True, k1)"
    "k' = k1\<lparr>total_prep_time := total_prep_time k1 - dish_getPrepTime d,
            count_elaborate := (if is_elaborate d then count_elaborate k1 - 1
                                else count_elaborate k1)\<rparr>"
    by (cases rule: serveDish_cases) simp_all
  note r = remove_True [OF s(1) wf]
  let ?f = "nat (getIndexOf kc ?p)"
  note g = getIndexOf_found [OF mem]
  have f_le: "?f \<le> j"
  proof (cases "j < item_count kc")
    case True
    then have "held kc ! j = ?p" using inv(3) assms(2) by (simp add: held_def)
    with g(4) show ?thesis by (meson not_le_imp_less)
  next
    case False
    moreover have "length (held kc) = item_count kc" using wf by (simp add: held_def)
    ultimately show ?thesis using g(2) by simp
  qed
  have items': "items k' = (items kc)[?f := items kc ! (item_count kc - 1)]"
    and held': "held k' = held k1"
    by (simp_all add: s(2) r(6) held_def)
  have 1: "aggregates_consistent h k'"
    using inv(1) assms(4) by (rule serveDish_consistent)
  have 2: "length orig \<le> length (items k')" using inv(2) by (simp add: items')
  have 3: "\<forall>m. Suc j \<le> m \<and> m < length orig \<longrightarrow> items k' ! m = orig ! m"
    using inv(3) f_le by (simp add: items')
  have 4: "mset (held k') =
       mset (filter (\<lambda>p. \<not> prep_below h t p) (take (Suc j) orig)) + mset (drop (Suc j) orig)"
    using r(2) assms(3) unfolding held' inv(4) tk dr by simp
  have 5: "r + 1 = int (length (filter (prep_below h t) (take (Suc j) orig)))"
    using assms(3) unfolding inv(5) tk by simp
  from 1 2 3 4 5 show ?thesis by (simp add: release_invariant_def)
qed

lemma release_loop_done:
  "\<not> i < num \<Longrightarrow> release_loop h t num (k, i, r) = Inr (k, r)"
  by (subst release_loop.simps) simp

lemma release_loop_keep:
  assumes "i < num" "read_item k i = Inr p" "h p = Some d" "\<not> dish_getPrepTime d < t"
  shows "release_loop h t num (k, i, r) = release_loop h t num (k, i + 1, r)"
  using assms by (subst release_loop.simps) (simp add: and_then_def deref_def)

lemma release_loop_serve:
  assumes "i < num" "read_item k i = Inr p" "h p = Some d" "dish_getPrepTime d < t"
  shows "release_loop h t num (k, i, r) =
           and_then (int_result (r + 1)) (\<lambda>r'.
           and_then (serveDish h k p) (\<lambda>(served, k').
             release_loop h t num (k', i + 1, r')))"
  using assms by (subst release_loop.simps) (simp add: and_then_def deref_def)

lemma release_loop_invariant:
  assumes "release_invariant h t orig j kc r" "j \<le> length orig" "set orig \<subseteq> dom h"
  shows "(\<exists>k' n. release_loop h t (int (length orig)) (kc, int j, r) = Inr (k', n) \<and>
                 release_invariant h t orig (length orig) k' n) \<or>
         (release_loop h t (int (length orig)) (kc, int j, r) = Inl SignedOverflow \<and>
          \<not> (no_overflow h kc \<and> int (length orig) \<le> INT_MAX))"
  using assms(1,2)
proof (induction "length orig - j" arbitrary: j kc r)
  case 0
  then have "j = length orig" by simp
  with 0 show ?case by (simp add: release_loop_done)
next
  case (Suc n)
  then have j: "j < length orig" by simp
  let ?p = "orig ! j" and ?num = "int (length orig)"
  from Suc.prems(1) have inv: "aggregates_consistent h kc" "length orig \<le> length (items kc)"
    "\<forall>m. j \<le> m \<and> m < length orig \<longrightarrow> items kc ! m = orig ! m"
    "mset (held kc) =
       mset (filter (\<lambda>p. \<not> prep_below h t p) (take j orig)) + mset (drop j orig)"
    "r = int (length (filter (prep_below h t) (take j orig)))"
    by (simp_all add: release_invariant_def)
  have lt: "int j < ?num" using j by simp
  have rd: "read_item kc (int j) = Inr ?p"
    using inv(2,3) j by (simp add: read_item_def in_range_def)
  from assms(3) j obtain d where d: "h ?p = Some d" by (meson domD nth_mem subsetD)
  have n: "n = length orig - Suc j" using Suc.hyps(2) by simp
  have sj: "int j + 1 = int (Suc j)" by simp
  show ?case
  proof (cases "dish_getPrepTime d < t")
    case False
    then have "\<not> prep_below h t ?p" using d by (simp add: prep_below_def)
    with Suc.prems(1) j have "release_invariant h t orig (Suc j) kc r"
      by (rule release_invariant_keep)
    from Suc.hyps(1) [OF n this] j
    have "(\<exists>k' n. release_loop h t ?num (kc, int (Suc j), r) = Inr (k', n) \<and>
                 release_invariant h t orig (length orig) k' n) \<or>
         (release_loop h t ?num (kc, int (Suc j), r) = Inl SignedOverflow \<and>
          \<not> (no_overflow h kc \<and> ?num \<le> INT_MAX))" by simp
    then show ?thesis
      unfolding release_loop_keep [where h = h, OF lt rd d False] sj .
  next
    case True
    then have below: "prep_below h t ?p" using d by (simp add: prep_below_def)
    note step = release_loop_serve [where h = h and r = r, OF lt rd d True]
    have mem: "?p \<in> set (held kc)"
    proof -
      have "drop j orig = ?p # drop (Suc j) orig"
        using j by (rule Cons_nth_drop_Suc [symmetric])
      then have "?p \<in># mset (held kc)" unfolding inv(4) by simp
      then show ?thesis by simp
    qed
    have r_le: "r \<le> int j" unfolding inv(5)
      by (metis length_filter_le length_take min.cobounded2 of_nat_mono order_trans min.commute)
    show ?thesis
    proof (cases "r + 1 \<le> INT_MAX")
      case False
      then have "release_loop h t ?num (kc, int j, r) = Inl SignedOverflow"
        unfolding step by (simp add: and_then_def int_result_def)
      moreover have "\<not> ?num \<le> INT_MAX" using False r_le lt by linarith
      ultimately show ?thesis by simp
    next
      case ok: True
      have "0 \<le> r" unfolding inv(5) by simp
      then have ir: "int_result (r + 1) = Inr (r + 1)"
        using ok by (simp add: int_result_def INT_MIN_def)
      from serveDish_held [OF inv(1) mem] show ?thesis
      proof
        assume "serveDish h kc ?p = Inl SignedOverflow \<and> \<not> no_overflow h kc"
        then show ?thesis unfolding step ir by (simp add: and_then_def)
      next
        assume "\<exists>k'. serveDish h kc ?p = Inr (True, k')"
        then obtain k1 where k1: "serveDish h kc ?p = Inr (True, k1)" ..
        with Suc.prems(1) j below have "release_invariant h t orig (Suc j) k1 (r + 1)"
          by (rule release_invariant_serve)
        from Suc.hyps(1) [OF n this] j
        have "(\<exists>k' n. release_loop h t ?num (k1, int (Suc j), r + 1) = Inr (k', n) \<and>
                 release_invariant h t orig (length orig) k' n) \<or>
         (release_loop h t ?num (k1, int (Suc j), r + 1) = Inl SignedOverflow \<and>
          \<not> (no_overflow h k1 \<and> ?num \<le> INT_MAX))" by simp
        moreover have "no_overflow h kc \<Longrightarrow> no_overflow h k1"
          using inv(1) mem k1 by (rule serveDish_no_overflow)
        moreover have "release_loop h t ?num (kc, int j, r) =
            release_loop h t ?num (k1, int (Suc j), r + 1)"
          unfolding step ir k1 by (simp add: and_then_def add.commute)
        ultimately show ?thesis by auto
      qed
    qed
  qed
qed

lemma release_invariant_start:
  assumes "aggregates_consistent h k"
  shows "release_invariant h t (held k) 0 k 0"
proof -
  from assms have "item_count k \<le> length (items k)" by (simp add: aggregates_consistent_iff)
  then show ?thesis using assms by (simp add: release_invariant_def held_def)
qed

lemma prep_sum_mset: "prep_sum h (mset ps) = sum_list (map (\<lambda>p. dish_getPrepTime (the (h p))) ps)"
  by (induction ps) (simp_all add: prep_sum_def)

lemma getPrepTimeSum_consistent:
  assumes "aggregates_consistent h k"
  shows "getPrepTimeSum k = prep_sum h (mset (held k))"
proof (cases "getCurrentSize k = 0")
  case True
  then have "held k = []" by (simp add: getCurrentSize_def held_def)
  with True show ?thesis by (simp add: getPrepTimeSum_def prep_sum_def)
next
  case False
  with assms show ?thesis by (simp add: getPrepTimeSum_def aggregates_consistent_iff)
qed

text \<open>
  C3. For every consistent kitchen and every threshold \<open>t\<close>,
  \<open>releaseDishesBelowPrepTime(t)\<close> removes every held dish whose preparation time is less
  than \<open>t\<close> and no other (the entry that \<open>remove\<close> moves into a vacated slot is met again
  at its old index, which the loop still reaches: it runs up to the size saved at the
  start), returns the number of dishes removed, which is the difference of the sizes,
  and leaves \<open>getPrepTimeSum()\<close> at the prior sum minus the preparation times of the dishes
  removed. The call completes unless an \<open>int\<close> overflows, which takes a negative
  preparation time, or a total or a size beyond \<open>INT_MAX\<close>.
\<close>

theorem release_below_prep_time:
  assumes "aggregates_consistent h k"
  shows "case releaseDishesBelowPrepTime h k t of
           Inl e \<Rightarrow> e = SignedOverflow \<and> \<not> no_overflow h k
         | Inr (k', n) \<Rightarrow>
             mset (held k') = mset (filter (\<lambda>p. \<not> prep_below h t p) (held k)) \<and>
             n = int (length (filter (prep_below h t) (held k))) \<and>
             n = getCurrentSize k - getCurrentSize k' \<and>
             getPrepTimeSum k' =
               getPrepTimeSum k -
               sum_list (map (\<lambda>p. dish_getPrepTime (the (h p)))
                          (filter (prep_below h t) (held k))) \<and>
             aggregates_consistent h k'"
proof -
  let ?orig = "held k"
  from assms have wf: "item_count k \<le> length (items k)" and dom: "set ?orig \<subseteq> dom h"
    by (simp_all add: aggregates_consistent_iff)
  have len: "length ?orig = item_count k" using wf by (simp add: held_def)
  have num: "getCurrentSize k = int (length ?orig)" by (simp add: getCurrentSize_def len)
  have run: "releaseDishesBelowPrepTime h k t =
      release_loop h t (int (length ?orig)) (k, int 0, 0)"
    by (simp add: releaseDishesBelowPrepTime_def num)
  from release_loop_invariant [OF release_invariant_start [OF assms] _ dom, of t]
  consider (completed) k' n where "releaseDishesBelowPrepTime h k t = Inr (k', n)"
      "release_invariant h t ?orig (length ?orig) k' n"
    | (overflow) "releaseDishesBelowPrepTime h k t = Inl SignedOverflow"
      "\<not> (no_overflow h k \<and> int (length ?orig) \<le> INT_MAX)"
    unfolding run by auto
  then show ?thesis
  proof cases
    case overflow
    moreover have "no_overflow h k \<Longrightarrow> int (length ?orig) \<le> INT_MAX"
      by (simp add: no_overflow_def len)
    ultimately show ?thesis by auto
  next
    case completed
    from completed(2) have inv: "aggregates_consistent h k'"
      "mset (held k') = mset (filter (\<lambda>p. \<not> prep_below h t p) ?orig)"
      "n = int (length (filter (prep_below h t) ?orig))"
      by (simp_all add: release_invariant_def)
    from inv(1) have wf': "item_count k' \<le> length (items k')"
      by (simp add: aggregates_consistent_iff)
    have "length (held k') = length (filter (\<lambda>p. \<not> prep_below h t p) ?orig)"
      using inv(2) by (metis size_mset)
    moreover have "length ?orig = length (filter (prep_below h t) ?orig) +
        length (filter (\<lambda>p. \<not> prep_below h t p) ?orig)"
      by (rule sum_length_filter_compl [symmetric])
    moreover have "length (held k') = item_count k'" using wf' by (simp add: held_def)
    ultimately have cnt: "n = getCurrentSize k - getCurrentSize k'"
      using inv(3) len by (simp add: getCurrentSize_def)
    have "mset ?orig = mset (filter (prep_below h t) ?orig) +
        mset (filter (\<lambda>p. \<not> prep_below h t p) ?orig)"
      by simp
    then have "prep_sum h (mset ?orig) = prep_sum h (mset (filter (prep_below h t) ?orig)) +
        prep_sum h (mset (held k'))"
      unfolding inv(2) by (metis image_mset_union prep_sum_def sum_mset.union)
    then have "sum_list (map (\<lambda>p. dish_getPrepTime (the (h p))) ?orig) =
        sum_list (map (\<lambda>p. dish_getPrepTime (the (h p))) (filter (prep_below h t) ?orig)) +
        sum_list (map (\<lambda>p. dish_getPrepTime (the (h p))) (held k'))"
      unfolding prep_sum_mset .
    moreover have "getPrepTimeSum k = sum_list (map (\<lambda>p. dish_getPrepTime (the (h p))) ?orig)"
      using getPrepTimeSum_consistent [OF assms] unfolding prep_sum_mset .
    moreover have "getPrepTimeSum k' =
        sum_list (map (\<lambda>p. dish_getPrepTime (the (h p))) (held k'))"
      using getPrepTimeSum_consistent [OF inv(1)] unfolding prep_sum_mset .
    ultimately have sum: "getPrepTimeSum k' = getPrepTimeSum k -
        sum_list (map (\<lambda>p. dish_getPrepTime (the (h p))) (filter (prep_below h t) ?orig))"
      by linarith
    from completed(1) inv cnt sum show ?thesis by simp
  qed
qed

lemma three_consistent: "aggregates_consistent three_dishes kitchen_of_three"
  by code_simp

lemma three_released:
  "releaseDishesBelowPrepTime three_dishes kitchen_of_three 50 = Inr (kitchen_after_release, 2)"
  by code_simp

theorem release_below_prep_time_witness:
  "aggregates_consistent three_dishes kitchen_of_three \<and>
   releaseDishesBelowPrepTime three_dishes kitchen_of_three 50 = Inr (kitchen_after_release, 2) \<and>
   held kitchen_of_three = [1, 0, 2] \<and>
   filter (prep_below three_dishes 50) (held kitchen_of_three) = [1, 2] \<and>
   mset (held kitchen_after_release) = {#0#} \<and>
   getCurrentSize kitchen_of_three - getCurrentSize kitchen_after_release = 2 \<and>
   getPrepTimeSum kitchen_of_three = 115 \<and>
   getPrepTimeSum kitchen_after_release = 115 - (40 + 10) \<and>
   aggregates_consistent three_dishes kitchen_after_release"
proof -
  have f: "held kitchen_of_three = [1, 0, 2]"
    "filter (prep_below three_dishes 50) (held kitchen_of_three) = [1, 2]"
    "filter (\<lambda>p. \<not> prep_below three_dishes 50 p) (held kitchen_of_three) = [0]"
    "getPrepTimeSum kitchen_of_three = 115"
    "map (\<lambda>p. dish_getPrepTime (the (three_dishes p))) [1, 2] = [40, 10]"
    by code_simp+
  from release_below_prep_time [OF three_consistent, of 50] three_released three_consistent f
  show ?thesis by simp
qed

subsection \<open>After a dietary adjustment\<close>

text \<open>
  C1. The cached counter does not follow a dietary adjustment. A kitchen that took one
  appetizer of five ingredients and 65 minutes is consistent and counts one elaborate
  dish. \<open>dietaryAdjustment\<close> with every flag set leaves the appetizer three ingredients:
  \<open>elaborateDishCount()\<close> still returns 1, recomputation from the dishes held gives 0.
  The sum of the preparation times is not affected.
\<close>

theorem dietaryAdjustment_leaves_count_stale:
  "newOrder (capacity 10) one_dish Kitchen_default 0 = Inr (True, kitchen_with_wings) \<and>
   aggregates_consistent one_dish kitchen_with_wings \<and>
   (case dietaryAdjustment one_dish kitchen_with_wings all_flags of
      Inl e \<Rightarrow> False
    | Inr h' \<Rightarrow>
        held_dishes h' kitchen_with_wings = Some [AppetizerObj wings_adjusted] \<and>
        elaborateDishCount kitchen_with_wings = 1 \<and>
        recomputed_elaborate_count [AppetizerObj wings_adjusted] = 0 \<and>
        getPrepTimeSum kitchen_with_wings = 65 \<and>
        recomputed_prep_time_sum [AppetizerObj wings_adjusted] = 65 \<and>
        \<not> aggregates_consistent h' kitchen_with_wings)"
  by code_simp


section \<open>Properties of the average and of the percentage\<close>

subsection \<open>Rounding to a double\<close>

lemma pow2_nat: "0 \<le> e \<Longrightarrow> (2::real) powi e = 2 ^ nat e"
  by (simp add: power_int_def)

lemma ilog2_bounds:
  assumes "0 < x"
  shows "2 powi ilog2 x \<le> x" "x < 2 powi (ilog2 x + 1)"
proof -
  have "2 powi ilog2 x \<le> x \<and> x < 2 powi (ilog2 x + 1)"
  proof (cases "1 \<le> x")
    case True
    let ?z = "\<lfloor>x\<rfloor>"
    have z: "0 < ?z" using True by simp
    from bitlen_bounds [OF z] have b: "2 ^ nat (bitlen ?z - 1) \<le> ?z" "?z < 2 ^ nat (bitlen ?z)"
      by simp_all
    have b1: "1 \<le> bitlen ?z" using z bitlen_eq_zero_iff [of ?z] bitlen_nonneg [of ?z] by linarith
    have "(2::real) ^ nat (bitlen ?z - 1) \<le> of_int ?z"
      using b(1) by (metis of_int_le_iff of_int_numeral of_int_power)
    also have "\<dots> \<le> x" by simp
    finally have lo: "(2::real) ^ nat (bitlen ?z - 1) \<le> x" .
    have "?z + 1 \<le> 2 ^ nat (bitlen ?z)" using b(2) by simp
    then have "of_int (?z + 1) \<le> (2::real) ^ nat (bitlen ?z)"
      by (metis of_int_le_iff of_int_numeral of_int_power)
    moreover have "x < of_int (?z + 1)" by linarith
    ultimately have hi: "x < (2::real) ^ nat (bitlen ?z)" by linarith
    have "ilog2 x = bitlen ?z - 1" using True by (simp add: ilog2_def)
    then show ?thesis using lo hi b1 by (simp add: pow2_nat)
  next
    case False
    let ?y = "1 / x"
    let ?w = "\<lceil>?y\<rceil> - 1"
    have y1: "1 < ?y" using False assms by simp
    then have w: "0 < ?w" by simp
    from bitlen_bounds [OF w] have b: "2 ^ nat (bitlen ?w - 1) \<le> ?w" "?w < 2 ^ nat (bitlen ?w)"
      by simp_all
    have b1: "1 \<le> bitlen ?w" using w bitlen_eq_zero_iff [of ?w] bitlen_nonneg [of ?w] by linarith
    have "(2::real) ^ nat (bitlen ?w - 1) \<le> of_int ?w"
      using b(1) by (metis of_int_le_iff of_int_numeral of_int_power)
    also have "\<dots> < ?y" by linarith
    finally have lo: "(2::real) ^ nat (bitlen ?w - 1) < ?y" .
    have "?w + 1 \<le> 2 ^ nat (bitlen ?w)" using b(2) by simp
    then have "of_int (?w + 1) \<le> (2::real) ^ nat (bitlen ?w)"
      by (metis of_int_le_iff of_int_numeral of_int_power)
    moreover have "?y \<le> of_int (?w + 1)" by simp
    ultimately have hi: "?y \<le> (2::real) ^ nat (bitlen ?w)" by linarith
    have i: "ilog2 x = - bitlen ?w" using False by (simp add: ilog2_def)
    have p1: "2 powi (- bitlen ?w) = 1 / (2::real) ^ nat (bitlen ?w)"
      using b1 by (simp add: power_int_minus_divide pow2_nat)
    have p2: "2 powi (- bitlen ?w + 1) = 1 / (2::real) ^ nat (bitlen ?w - 1)"
    proof -
      have "- bitlen ?w + 1 = - (bitlen ?w - 1)" by simp
      then show ?thesis using b1 by (simp only: power_int_minus_divide) (simp add: pow2_nat)
    qed
    have "1 / (2::real) ^ nat (bitlen ?w) \<le> x"
      using hi assms by (simp add: field_simps)
    moreover have "x < 1 / (2::real) ^ nat (bitlen ?w - 1)"
      using lo assms by (simp add: field_simps)
    ultimately show ?thesis unfolding i p1 p2 by simp
  qed
  then show "2 powi ilog2 x \<le> x" "x < 2 powi (ilog2 x + 1)" by simp_all
qed

lemma ilog2_less:
  assumes "0 < x" "x < 2 powi k"
  shows "ilog2 x < k"
proof (rule ccontr)
  assume "\<not> ilog2 x < k"
  then have "k \<le> ilog2 x" by simp
  then have "(2::real) powi k \<le> 2 powi ilog2 x" by (intro power_int_increasing) simp_all
  with ilog2_bounds(1) [OF assms(1)] assms(2) show False by linarith
qed

lemma ilog2_ge:
  assumes "0 < x" "2 powi k \<le> x"
  shows "k \<le> ilog2 x"
proof (rule ccontr)
  assume "\<not> k \<le> ilog2 x"
  then have "ilog2 x + 1 \<le> k" by simp
  then have "(2::real) powi (ilog2 x + 1) \<le> 2 powi k" by (intro power_int_increasing) simp_all
  with ilog2_bounds(2) [OF assms(1)] assms(2) show False by linarith
qed

lemma round_half_even_error: "\<bar>of_int (round_half_even y) - y\<bar> \<le> 1 / 2"
proof -
  have "of_int \<lfloor>y\<rfloor> \<le> y" "y < of_int \<lfloor>y\<rfloor> + 1" by linarith+
  then show ?thesis by (auto simp: round_half_even_def Let_def)
qed

lemma round_half_even_of_int [simp]: "round_half_even (of_int z) = z"
  by (simp add: round_half_even_def)

lemma quantum_pos [simp]: "0 < quantum x"
  by (simp add: quantum_def)

lemma quantum_neq_0 [simp]: "quantum x \<noteq> 0"
  using quantum_pos [of x] by linarith

lemma fl_0 [simp]: "fl 0 = 0"
  by (simp add: fl_def)

lemma fl_error_quantum: "\<bar>fl x - x\<bar> \<le> quantum x / 2"
proof (cases "x = 0")
  case True
  then show ?thesis by (simp add: less_imp_le)
next
  case False
  let ?q = "quantum x" and ?m = "round_half_even (\<bar>x\<bar> / quantum x)"
  have x: "x = sgn x * (\<bar>x\<bar> / ?q) * ?q" by (simp add: sgn_if)
  have "fl x - x = sgn x * (of_int ?m - \<bar>x\<bar> / ?q) * ?q"
    using False by (subst (2) x) (simp add: fl_def algebra_simps)
  then have "\<bar>fl x - x\<bar> = \<bar>sgn x\<bar> * \<bar>of_int ?m - \<bar>x\<bar> / ?q\<bar> * \<bar>?q\<bar>"
    by (simp only: abs_mult)
  also have "\<bar>sgn x\<bar> = 1" using False by (simp add: abs_sgn_eq)
  also have "\<bar>?q\<bar> = ?q" by (simp add: less_imp_le)
  finally have "\<bar>fl x - x\<bar> = \<bar>of_int ?m - \<bar>x\<bar> / ?q\<bar> * ?q" by simp
  also have "\<dots> \<le> 1 / 2 * ?q"
    by (intro mult_right_mono round_half_even_error) (simp add: less_imp_le)
  finally show ?thesis by simp
qed

lemma quantum_normal:
  assumes "2 powi (- 1022) \<le> \<bar>x\<bar>"
  shows "quantum x = 2 powi (ilog2 \<bar>x\<bar> - 52)" "quantum x \<le> \<bar>x\<bar> / 2 ^ 52"
proof -
  have "(0::real) < 2 powi (- 1022)" by simp
  with assms have pos: "0 < \<bar>x\<bar>" by linarith
  from ilog2_ge [OF pos assms] have "- 1074 \<le> ilog2 \<bar>x\<bar> - 52" by simp
  then have "max (ilog2 \<bar>x\<bar> - 52) (- 1074) = ilog2 \<bar>x\<bar> - 52" by (rule max_absorb1)
  then show q: "quantum x = 2 powi (ilog2 \<bar>x\<bar> - 52)" by (simp only: quantum_def)
  have "(2::real) powi (ilog2 \<bar>x\<bar> - 52) = 2 powi ilog2 \<bar>x\<bar> / 2 ^ 52"
    by (simp add: power_int_diff)
  also have "\<dots> \<le> \<bar>x\<bar> / 2 ^ 52"
    using ilog2_bounds(1) [OF pos] by (simp add: divide_right_mono)
  finally show "quantum x \<le> \<bar>x\<bar> / 2 ^ 52" unfolding q .
qed

lemma fl_error:
  assumes "2 powi (- 1022) \<le> \<bar>x\<bar>"
  shows "\<bar>fl x - x\<bar> \<le> \<bar>x\<bar> / 2 ^ 53"
proof -
  have "\<bar>fl x - x\<bar> \<le> quantum x / 2" by (rule fl_error_quantum)
  also have "\<dots> \<le> (\<bar>x\<bar> / 2 ^ 52) / 2" using quantum_normal(2) [OF assms] by simp
  finally show ?thesis by simp
qed

lemma fl_exact:
  assumes "\<bar>x\<bar> / quantum x = of_int z"
  shows "fl x = x"
proof (cases "x = 0")
  case True
  then show ?thesis by simp
next
  case False
  have "fl x = sgn x * (\<bar>x\<bar> / quantum x) * quantum x"
    using False by (simp add: fl_def assms)
  also have "\<dots> = x" by (simp add: sgn_if)
  finally show ?thesis .
qed

lemma fl_dyadic:
  assumes "x = of_int z / 2 ^ j" "\<bar>x\<bar> < 2 powi (53 - int j)" "j \<le> 1022"
  shows "fl x = x"
proof (cases "x = 0")
  case True
  then show ?thesis by simp
next
  case False
  then have pos: "0 < \<bar>x\<bar>" by simp
  from False assms(1) have "z \<noteq> 0" by auto
  then have "1 \<le> \<bar>z\<bar>" by simp
  then have "1 \<le> \<bar>of_int z :: real\<bar>" by (metis of_int_abs of_int_1_le_iff)
  then have "1 / 2 ^ j \<le> \<bar>x\<bar>" by (simp add: assms(1) divide_right_mono)
  moreover have "(2::real) powi (- 1022) \<le> 2 powi (- int j)"
    using assms(3) by (intro power_int_increasing) simp_all
  moreover have "(2::real) powi (- int j) = 1 / 2 ^ j" by (simp add: power_int_minus_divide)
  ultimately have normal: "2 powi (- 1022) \<le> \<bar>x\<bar>" by linarith
  define e where "e = ilog2 \<bar>x\<bar>"
  from ilog2_less [OF pos assms(2)] have e: "0 \<le> 52 - e - int j" by (simp add: e_def)
  have q: "quantum x = 2 powi (e - 52)" unfolding e_def by (rule quantum_normal(1) [OF normal])
  have "\<bar>x\<bar> / quantum x = \<bar>of_int z\<bar> / 2 ^ j / 2 powi (e - 52)"
    unfolding q by (simp add: assms(1))
  also have "\<dots> = \<bar>of_int z\<bar> * (2 powi (52 - e) / 2 powi (int j))"
    by (simp add: power_int_diff field_simps)
  also have "2 powi (52 - e) / 2 powi (int j) = (2::real) powi (52 - e - int j)"
    by (simp add: power_int_diff)
  also have "\<dots> = 2 ^ nat (52 - e - int j)" using e by (rule pow2_nat)
  also have "\<bar>of_int z\<bar> * 2 ^ nat (52 - e - int j) =
      (of_int (\<bar>z\<bar> * 2 ^ nat (52 - e - int j)) :: real)"
    by simp
  finally show ?thesis by (rule fl_exact)
qed

lemma fl_of_int:
  assumes "\<bar>v\<bar> < 2 ^ 53"
  shows "fl (of_int v) = of_int v"
proof -
  have "\<bar>of_int v :: real\<bar> < 2 ^ 53"
    using assms by (metis of_int_abs of_int_less_iff of_int_numeral of_int_power)
  then show ?thesis by (intro fl_dyadic [where z = v and j = 0]) simp_all
qed

lemma fl_half_int:
  assumes "\<bar>v\<bar> < 2 ^ 53"
  shows "fl (of_int v / 2) = of_int v / 2"
proof -
  have "\<bar>of_int v :: real\<bar> < 2 ^ 53"
    using assms by (metis of_int_abs of_int_less_iff of_int_numeral of_int_power)
  then show ?thesis by (intro fl_dyadic [where z = v and j = 1]) simp_all
qed

lemma fl_minus: "fl (- x) = - fl x"
  by (simp add: fl_def quantum_def sgn_if)

lemma fl_quotient_rounds_alike:
  fixes s :: int and n :: nat
  assumes "0 < s" "0 < n" "n < 2 ^ 21" "s \<le> int n * 2 ^ 31"
  shows "\<lfloor>fl (of_int s / of_nat n) + 1 / 2\<rfloor> = \<lfloor>(of_int s / of_nat n :: real) + 1 / 2\<rfloor>"
    and "0 < fl (of_int s / of_nat n)"
proof -
  let ?q = "of_int s / of_nat n :: real"
  define r where "r = \<lfloor>?q + 1 / 2\<rfloor>"
  have n: "(0::real) < of_nat n" "(of_nat n :: real) < 2 ^ 21"
    using assms(2,3) by simp_all
  have q_pos: "0 < ?q" using assms(1) n(1) by simp
  have "(1::real) \<le> of_int s" using assms(1) by simp
  then have q_lo: "1 / of_nat n \<le> ?q" using n(1) by (simp add: divide_right_mono)
  have "(of_int s :: real) \<le> of_int (int n * 2 ^ 31)"
    using assms(4) by (simp only: of_int_le_iff)
  then have q_hi: "?q \<le> 2 ^ 31" using n(1) by (simp add: field_simps)
  have small: "(2::real) powi (- 1022) \<le> 1 / 2 ^ 22"
  proof -
    have "(2::real) powi (- 1022) \<le> 2 powi (- 22)" by (intro power_int_increasing) simp_all
    then show ?thesis by (simp add: power_int_minus_divide)
  qed
  have gap: "1 / (2::real) ^ 22 < 1 / (2 * of_nat n)" using n by (simp add: field_simps)
  have gap2: "1 / (2 * of_nat n) < 1 / (of_nat n :: real)" using n(1) by (simp add: field_simps)
  from small gap gap2 q_lo q_pos have normal: "2 powi (- 1022) \<le> \<bar>?q\<bar>" by linarith
  have "\<bar>fl ?q - ?q\<bar> \<le> \<bar>?q\<bar> / 2 ^ 53" using normal by (rule fl_error)
  also have "\<dots> \<le> 2 ^ 31 / 2 ^ 53" using q_hi q_pos by (simp add: divide_right_mono)
  also have "\<dots> = 1 / (2::real) ^ 22" by simp
  finally have err: "\<bar>fl ?q - ?q\<bar> \<le> 1 / 2 ^ 22" .
  from err gap gap2 q_lo show "0 < fl ?q" by linarith
  have r: "of_int r \<le> ?q + 1 / 2" "?q + 1 / 2 < of_int r + 1"
    unfolding r_def by linarith+
  have hi: "fl ?q + 1 / 2 < of_int r + 1"
  proof -
    have "(of_int (2 * s) :: real) < of_int ((2 * r + 1) * int n)"
      using r(2) n(1) by (simp add: field_simps)
    then have "2 * s < (2 * r + 1) * int n" by (simp only: of_int_less_iff)
    then have "2 * s + 1 \<le> (2 * r + 1) * int n" by simp
    then have "(of_int (2 * s + 1) :: real) \<le> of_int ((2 * r + 1) * int n)"
      by (simp only: of_int_le_iff)
    then have "?q + 1 / (2 * of_nat n) \<le> of_int r + 1 / 2"
      using n(1) by (simp add: field_simps)
    with err gap show ?thesis by linarith
  qed
  have lo: "of_int r \<le> fl ?q + 1 / 2"
  proof (cases "2 * s = (2 * r - 1) * int n")
    case True
    then have "(of_int (2 * s) :: real) = of_int ((2 * r - 1) * int n)" by simp
    then have q: "?q = of_int (2 * r - 1) / 2" using n(1) by (simp add: field_simps)
    have "(0::real) < of_int (2 * r - 1) / 2" using q_pos unfolding q .
    then have "(0::real) < of_int (2 * r - 1)" by simp
    then have "0 < 2 * r - 1" by (simp only: of_int_0_less_iff)
    moreover have "of_int (2 * r - 1) / 2 \<le> (2::real) ^ 31" using q_hi unfolding q .
    then have "(of_int (2 * r - 1) :: real) \<le> of_int (2 ^ 32)" by simp
    then have "2 * r - 1 \<le> 2 ^ 32" by (simp only: of_int_le_iff)
    ultimately have "\<bar>2 * r - 1\<bar> < 2 ^ 53" by simp
    then have "fl ?q = ?q" unfolding q by (rule fl_half_int)
    then show ?thesis using r(1) by simp
  next
    case False
    have "(of_int ((2 * r - 1) * int n) :: real) \<le> of_int (2 * s)"
      using r(1) n(1) by (simp add: field_simps)
    then have "(2 * r - 1) * int n \<le> 2 * s" by (simp only: of_int_le_iff)
    with False have "(2 * r - 1) * int n + 1 \<le> 2 * s" by simp
    then have "(of_int ((2 * r - 1) * int n + 1) :: real) \<le> of_int (2 * s)"
      by (simp only: of_int_le_iff)
    then have "(of_int ((2 * r - 1) * int n + 1) :: real) / (2 * of_nat n) \<le>
        of_int (2 * s) / (2 * of_nat n)"
      using n(1) by (intro divide_right_mono) simp_all
    moreover have "(of_int ((2 * r - 1) * int n + 1) :: real) / (2 * of_nat n) =
        of_int r - 1 / 2 + 1 / (2 * of_nat n)"
      using n(1) by (simp add: field_simps)
    moreover have "(of_int (2 * s) :: real) / (2 * of_nat n) = ?q" by simp
    ultimately have "of_int r - 1 / 2 + 1 / (2 * of_nat n) \<le> ?q" by simp
    with err gap show ?thesis by linarith
  qed
  from lo hi have "\<lfloor>fl ?q + 1 / 2\<rfloor> = r" by linarith
  then show "\<lfloor>fl ?q + 1 / 2\<rfloor> = \<lfloor>?q + 1 / 2\<rfloor>" by (simp only: r_def)
qed


subsection \<open>The average preparation time\<close>

lemma double_of_int_exact: "\<bar>v\<bar> < 2 ^ 53 \<Longrightarrow> double_of_int v = of_int v"
  unfolding double_of_int_def by (rule fl_of_int)

lemma sum_list_int_bounds:
  fixes g :: "'a \<Rightarrow> int"
  assumes "\<forall>d \<in> set ds. INT_MIN \<le> g d \<and> g d \<le> INT_MAX"
  shows "int (length ds) * INT_MIN \<le> sum_list (map g ds)"
    and "sum_list (map g ds) \<le> int (length ds) * INT_MAX"
  using assms by (induction ds) (auto simp: algebra_simps)

lemma read_held:
  assumes "item_count k \<le> length (items k)" "held_dishes h k = Some ds" "j < length ds"
  shows "length ds = item_count k"
    and "read_item k (int j) = Inr (items k ! j)"
    and "deref h (items k ! j) = Inr (ds ! j)"
proof -
  from assms(2) have s: "set (held k) \<subseteq> dom h" and ds: "ds = map (\<lambda>p. the (h p)) (held k)"
    using those_map_Some [of h "held k" ds] by (simp_all add: held_dishes_def)
  from ds assms(1) show len: "length ds = item_count k" by (simp add: held_def)
  with assms(1,3) have j: "j < length (items k)" "j < item_count k" by simp_all
  then show "read_item k (int j) = Inr (items k ! j)"
    by (simp add: read_item_def in_range_def)
  from j have m: "held k ! j = items k ! j" by (simp add: held_def)
  from j assms(1) have "j < length (held k)" by (simp add: held_def)
  then have "held k ! j \<in> set (held k)" by (rule nth_mem)
  with s obtain d where d: "h (held k ! j) = Some d" by auto
  moreover from ds j assms(1) have "ds ! j = the (h (held k ! j))" by (simp add: held_def)
  ultimately show "deref h (items k ! j) = Inr (ds ! j)" by (simp add: deref_def m)
qed

lemma average_loop_exact:
  assumes k: "item_count k \<le> length (items k)" "held_dishes h k = Some ds"
    and range: "\<forall>d \<in> set ds. INT_MIN \<le> dish_getPrepTime d \<and> dish_getPrepTime d \<le> INT_MAX"
    and size: "length ds < 2 ^ 21"
    and j: "j \<le> length ds"
  shows "average_loop h k (of_int (recomputed_prep_time_sum (take j ds)), int j) =
    Inr (of_int (recomputed_prep_time_sum ds))"
  using j
proof (induction "length ds - j" arbitrary: j)
  case 0
  then have "j = length ds" by simp
  moreover have "length ds = item_count k"
    using k those_map_Some [of h "held k" ds] by (simp add: held_dishes_def held_def)
  ultimately show ?case
    by (subst average_loop.simps) (simp add: getCurrentSize_def)
next
  case (Suc m)
  then have lt: "j < length ds" by simp
  note r = read_held [OF k lt]
  let ?p = "dish_getPrepTime (ds ! j)"
  have in_ds: "ds ! j \<in> set ds" using lt by simp
  with range have p: "INT_MIN \<le> ?p" "?p \<le> INT_MAX" by simp_all
  then have "\<bar>?p\<bar> < 2 ^ 53" by (simp add: INT_MIN_def INT_MAX_def)
  then have dp: "double_of_int ?p = of_int ?p" by (rule double_of_int_exact)
  have tk: "take (Suc j) ds = take j ds @ [ds ! j]" using lt by (rule take_Suc_conv_app_nth)
  have sum: "recomputed_prep_time_sum (take (Suc j) ds) =
      recomputed_prep_time_sum (take j ds) + ?p"
    by (simp add: recomputed_prep_time_sum_def tk)
  have "\<forall>d \<in> set (take (Suc j) ds). INT_MIN \<le> dish_getPrepTime d \<and> dish_getPrepTime d \<le> INT_MAX"
    using range by (meson in_set_takeD)
  from sum_list_int_bounds [OF this]
  have "int (Suc j) * INT_MIN \<le> recomputed_prep_time_sum (take (Suc j) ds)"
    "recomputed_prep_time_sum (take (Suc j) ds) \<le> int (Suc j) * INT_MAX"
    using lt by (simp_all add: recomputed_prep_time_sum_def min_absorb2)
  moreover have "int (Suc j) \<le> 2 ^ 21" using lt size by simp
  then have "int (Suc j) * INT_MAX \<le> 2 ^ 21 * 2 ^ 31" "- (2 ^ 21 * 2 ^ 31) \<le> int (Suc j) * INT_MIN"
    by (simp_all add: INT_MAX_def INT_MIN_def)
  ultimately have "\<bar>recomputed_prep_time_sum (take (Suc j) ds)\<bar> < 2 ^ 53" by simp
  then have "fl (of_int (recomputed_prep_time_sum (take (Suc j) ds))) =
      of_int (recomputed_prep_time_sum (take (Suc j) ds))"
    by (rule fl_of_int)
  then have step: "fl (of_int (recomputed_prep_time_sum (take j ds)) + double_of_int ?p) =
      of_int (recomputed_prep_time_sum (take (Suc j) ds))"
    by (simp add: sum dp)
  have "average_loop h k (of_int (recomputed_prep_time_sum (take j ds)), int j) =
      average_loop h k (of_int (recomputed_prep_time_sum (take (Suc j) ds)), int j + 1)"
    using lt r by (subst average_loop.simps) (simp add: getCurrentSize_def and_then_def step)
  also have "int j + 1 = int (Suc j)" by simp
  also have "average_loop h k (of_int (recomputed_prep_time_sum (take (Suc j) ds)), int (Suc j)) =
      Inr (of_int (recomputed_prep_time_sum ds))"
    using Suc.hyps(2) lt by (intro Suc.hyps(1)) simp_all
  finally show ?case .
qed

lemma c_round_fl_quotient:
  fixes s :: int and n :: nat
  assumes "0 < n" "n < 2 ^ 21" "\<bar>s\<bar> \<le> int n * 2 ^ 31"
  shows "c_round (fl (of_int s / of_nat n)) = of_int (nearest_integer (of_int s / of_nat n))"
proof -
  let ?q = "of_int s / of_nat n :: real"
  have n: "(0::real) < of_nat n" using assms(1) by simp
  consider "0 < s" | "s = 0" | "s < 0" by linarith
  then show ?thesis
  proof cases
    case 1
    then have "s \<le> int n * 2 ^ 31" using assms(3) by simp
    from fl_quotient_rounds_alike [OF 1 assms(1,2) this]
    have "\<lfloor>fl ?q + 1 / 2\<rfloor> = \<lfloor>?q + 1 / 2\<rfloor>" "0 < fl ?q" .
    moreover have "0 \<le> ?q" using 1 n by simp
    ultimately show ?thesis by (simp add: c_round_def nearest_integer_def)
  next
    case 2
    then show ?thesis by (simp add: c_round_def nearest_integer_def)
  next
    case 3
    let ?r = "of_int (- s) / of_nat n :: real"
    from 3 have pos: "0 < - s" and le: "- s \<le> int n * 2 ^ 31" using assms(3) by simp_all
    from fl_quotient_rounds_alike [OF pos assms(1,2) le]
    have a: "\<lfloor>fl ?r + 1 / 2\<rfloor> = \<lfloor>?r + 1 / 2\<rfloor>" "0 < fl ?r" .
    have q: "?q = - ?r" by simp
    have neg: "?q < 0" using 3 n by (simp add: divide_neg_pos)
    have "fl ?q = - fl ?r" unfolding q by (rule fl_minus)
    with a have "c_round (fl ?q) = of_int (- \<lfloor>?r + 1 / 2\<rfloor>)" by (simp add: c_round_def)
    moreover have "nearest_integer ?q = - \<lfloor>?r + 1 / 2\<rfloor>"
      using neg by (simp add: nearest_integer_def)
    ultimately show ?thesis by simp
  qed
qed

lemma nearest_integer_bounds:
  fixes s :: int and n :: nat
  assumes "0 < n" "int n * INT_MIN \<le> s" "s \<le> int n * INT_MAX"
  shows "INT_MIN \<le> nearest_integer (of_int s / of_nat n)"
    and "nearest_integer (of_int s / of_nat n) \<le> INT_MAX"
proof -
  let ?q = "of_int s / of_nat n :: real"
  have n: "(0::real) < of_nat n" using assms(1) by simp
  have "(of_int s :: real) \<le> of_int (int n * INT_MAX)" using assms(3) by (simp only: of_int_le_iff)
  then have hi: "?q \<le> of_int INT_MAX" using n by (simp add: field_simps)
  have "(of_int (int n * INT_MIN) :: real) \<le> of_int s" using assms(2) by (simp only: of_int_le_iff)
  then have lo: "of_int INT_MIN \<le> ?q" using n by (simp add: field_simps)
  define up where "up = \<lfloor>?q + 1 / 2\<rfloor>"
  define down where "down = \<lfloor>- ?q + 1 / 2\<rfloor>"
  have ni: "nearest_integer ?q = (if 0 \<le> ?q then up else - down)"
    by (simp only: nearest_integer_def up_def down_def)
  have "?q + 1 / 2 < of_int (INT_MAX + 1)" using hi by simp
  then have up_hi: "up < INT_MAX + 1" unfolding up_def by (simp only: floor_less_iff)
  have "- ?q + 1 / 2 < of_int (- INT_MIN + 1)" using lo by simp
  then have down_hi: "down < - INT_MIN + 1" unfolding down_def by (simp only: floor_less_iff)
  have up_lo: "0 \<le> up" if "0 \<le> ?q"
  proof -
    from that have "0 \<le> ?q + 1 / 2" by linarith
    then show ?thesis unfolding up_def by (simp only: zero_le_floor)
  qed
  have down_lo: "0 \<le> down" if "\<not> 0 \<le> ?q"
  proof -
    from that have "0 \<le> - ?q + 1 / 2" by linarith
    then show ?thesis unfolding down_def by (simp only: zero_le_floor)
  qed
  show "INT_MIN \<le> nearest_integer ?q"
  proof (cases "0 \<le> ?q")
    case True
    from up_lo [OF True] have "INT_MIN \<le> up" by (simp add: INT_MIN_def)
    with True show ?thesis by (simp only: ni if_True)
  next
    case False
    from down_hi have "INT_MIN \<le> - down" by simp
    with False show ?thesis by (simp only: ni if_False)
  qed
  show "nearest_integer ?q \<le> INT_MAX"
  proof (cases "0 \<le> ?q")
    case True
    from up_hi have "up \<le> INT_MAX" by simp
    with True show ?thesis by (simp only: ni if_True)
  next
    case False
    from down_lo [OF False] have "- down \<le> INT_MAX" by (simp add: INT_MAX_def)
    with False show ?thesis by (simp only: ni if_False)
  qed
qed

lemma int_of_double_of_int: "int_of_double (of_int m) = int_result m"
  by (simp add: int_of_double_def)

text \<open>
  C7. \<open>calculateAvgPrepTime()\<close> returns 0 for an empty kitchen, and otherwise the sum of
  the preparation times of the held dishes divided by their number, rounded to the
  nearest integer, a tie away from zero. The \<open>double\<close> arithmetic of the function loses
  nothing: the running total is an integer below \<open>2^53\<close> at every step, and the rounded
  quotient lies on the same side of every half-integer as the exact one. The statement
  is for a kitchen of fewer than \<open>2^21\<close> dishes whose pointers point to dishes and whose
  preparation times are values of \<open>int\<close>.
\<close>

theorem average_prep_time_rounded:
  assumes "item_count k \<le> length (items k)" "held_dishes h k = Some ds"
    and "\<forall>d \<in> set ds. INT_MIN \<le> dish_getPrepTime d \<and> dish_getPrepTime d \<le> INT_MAX"
    and "length ds < 2 ^ 21"
  shows "calculateAvgPrepTime h k =
    Inr (if ds = [] then 0
         else nearest_integer (of_int (recomputed_prep_time_sum ds) / of_nat (length ds)))"
proof -
  have len: "length ds = item_count k"
    using assms(1,2) those_map_Some [of h "held k" ds] by (simp add: held_dishes_def held_def)
  show ?thesis
  proof (cases "ds = []")
    case True
    with len show ?thesis by (simp add: calculateAvgPrepTime_def getCurrentSize_def)
  next
    case False
    let ?s = "recomputed_prep_time_sum ds" and ?n = "length ds"
    from False have n: "0 < ?n" by simp
    have "average_loop h k (of_int (recomputed_prep_time_sum (take 0 ds)), int 0) = Inr (of_int ?s)"
      using assms by (intro average_loop_exact) simp_all
    then have loop: "average_loop h k (0, 0) = Inr (of_int ?s)"
      by (simp add: recomputed_prep_time_sum_def)
    have "\<bar>int ?n\<bar> < 2 ^ 53" using assms(4) by simp
    then have dn: "double_of_int (int ?n) = of_nat ?n"
      using double_of_int_exact [of "int ?n"] by simp
    from sum_list_int_bounds [OF assms(3)]
    have b: "int ?n * INT_MIN \<le> ?s" "?s \<le> int ?n * INT_MAX"
      by (simp_all add: recomputed_prep_time_sum_def)
    then have "\<bar>?s\<bar> \<le> int ?n * 2 ^ 31" by (simp add: INT_MIN_def INT_MAX_def)
    from c_round_fl_quotient [OF n assms(4) this]
    have r: "c_round (fl (of_int ?s / of_nat ?n)) = of_int (nearest_integer (of_int ?s / of_nat ?n))" .
    from nearest_integer_bounds [OF n b]
    have "int_result (nearest_integer (of_int ?s / of_nat ?n)) =
        Inr (nearest_integer (of_int ?s / of_nat ?n))"
      by (simp add: int_result_def)
    with False n len loop show ?thesis
      by (simp add: calculateAvgPrepTime_def getCurrentSize_def and_then_def dn [unfolded len] r [unfolded len]
          int_of_double_of_int)
  qed
qed

theorem average_prep_time_rounded_witness:
  "held_dishes three_dishes kitchen_of_three =
     Some [DessertObj brownie, AppetizerObj wings, DessertObj sorbet] \<and>
   recomputed_prep_time_sum [DessertObj brownie, AppetizerObj wings, DessertObj sorbet] = 115 \<and>
   calculateAvgPrepTime three_dishes kitchen_of_three = Inr 38 \<and>
   held_dishes two_dishes kitchen_of_two = Some [AppetizerObj wings, DessertObj brownie] \<and>
   recomputed_prep_time_sum [AppetizerObj wings, DessertObj brownie] = 105 \<and>
   calculateAvgPrepTime two_dishes kitchen_of_two = Inr 53 \<and>
   calculateAvgPrepTime two_dishes Kitchen_default = Inr 0"
proof -
  have h: "held_dishes three_dishes kitchen_of_three =
      Some [DessertObj brownie, AppetizerObj wings, DessertObj sorbet]"
    "held_dishes two_dishes kitchen_of_two = Some [AppetizerObj wings, DessertObj brownie]"
    "held_dishes two_dishes Kitchen_default = Some []"
    by (simp_all add: held_dishes_def held_def kitchen_of_three_def three_dishes_def
        kitchen_of_two_def two_dishes_def Kitchen_default_def)
  have s: "recomputed_prep_time_sum [DessertObj brownie, AppetizerObj wings, DessertObj sorbet] = 115"
    "recomputed_prep_time_sum [AppetizerObj wings, DessertObj brownie] = 105"
    by (simp_all add: recomputed_prep_time_sum_def getPrepTime_def brownie_def wings_def sorbet_def)
  have n: "nearest_integer (115 / 3) = 38" "nearest_integer (105 / 2) = 53"
    by (simp_all add: nearest_integer_def)
  have l: "item_count kitchen_of_three \<le> length (items kitchen_of_three)"
    "item_count kitchen_of_two \<le> length (items kitchen_of_two)"
    "item_count Kitchen_default \<le> length (items Kitchen_default)"
    by (simp_all add: kitchen_of_three_def kitchen_of_two_def Kitchen_default_def)
  from average_prep_time_rounded [OF l(1) h(1)] average_prep_time_rounded [OF l(2) h(2)]
    average_prep_time_rounded [OF l(3) h(3)] h s n
  show ?thesis
    by (simp add: INT_MIN_def INT_MAX_def getPrepTime_def brownie_def wings_def sorbet_def)
qed


subsection \<open>The percentage of elaborate dishes\<close>












text \<open>The \<open>double\<close> nearest to 53.85.\<close>

lemma fl_5385: "fl (5385 / 100) = 7578713747934413 / 140737488355328"
  by code_simp



section \<open>Properties of the display of a dessert\<close>

text \<open>
  C2. \<open>Dessert::display\<close> does not print the label of every flavor profile: for
  \<open>SALTY\<close> it prints the line \<open>Flavor Profile: Umami\<close>; for \<open>SOUR\<close> it prints \<open>Sour\<close>
  and, on a line of its own, \<open>Salty\<close>; for \<open>UMAMI\<close> it prints no label and no line end,
  so that the sweetness level follows on the same line.
\<close>

theorem Dessert_display_labels:
  "Dessert_display base (d\<lparr>flavor_profile := SALTY\<rparr>) =
     base @ ''Flavor Profile: Umami'' @ endl @
     ''Sweetness Level: '' @ show_int (sweetness_level d) @ endl @
     ''Contains Nuts: '' @ (if contains_nuts d then ''Yes'' @ endl else ''No'' @ endl) \<and>
   Dessert_display base (d\<lparr>flavor_profile := SOUR\<rparr>) =
     base @ ''Flavor Profile: Sour'' @ endl @ ''Salty'' @ endl @
     ''Sweetness Level: '' @ show_int (sweetness_level d) @ endl @
     ''Contains Nuts: '' @ (if contains_nuts d then ''Yes'' @ endl else ''No'' @ endl) \<and>
   Dessert_display base (d\<lparr>flavor_profile := UMAMI\<rparr>) =
     base @ ''Flavor Profile: Sweetness Level: '' @ show_int (sweetness_level d) @ endl @
     ''Contains Nuts: '' @ (if contains_nuts d then ''Yes'' @ endl else ''No'' @ endl)"
  by (simp add: Dessert_display_def)

lemma Dessert_display_brownie:
  "Dessert_display [] brownie =
     ''Flavor Profile: Umami'' @ endl @ ''Sweetness Level: 7'' @ endl @
     ''Contains Nuts: Yes'' @ endl"
  by code_simp

section \<open>Properties of the reading of a file\<close>

text \<open>
  C9. A token that matches none of the names of its enumeration is decoded to the
  default, and the dish of the line is constructed with it: a cuisine type outside the
  six names gives \<open>OTHER\<close> (in each of the three branches), a serving style outside its
  three names \<open>PLATED\<close>, a cooking method outside its six names \<open>GRILLED\<close>, a flavor profile
  outside its five names \<open>SWEET\<close>, and the category of a side dish outside its eight names
  \<open>GRAIN\<close>. No decoding fails: the functions are total.
\<close>

theorem unrecognized_tokens_fall_back:
  "(cuisine_token \<notin> {''ITALIAN'', ''MEXICAN'', ''CHINESE'', ''INDIAN'', ''AMERICAN'', ''FRENCH''} \<longrightarrow>
      cuisine_type (APPETIZER_dish nm ings prep pr cuisine_token serving_style_token level flag)
        = OTHER \<and>
      cuisine_type (MAINCOURSE_dish nm ings prep pr cuisine_token cooking_method_token protein
                      entries flag) = OTHER \<and>
      cuisine_type (DESSERT_dish nm ings prep pr cuisine_token flavor_profile_token level flag)
        = OTHER) \<and>
   (serving_style_token \<notin> {''PLATED'', ''FAMILY_STYLE'', ''BUFFET''} \<longrightarrow>
      serving_style (APPETIZER_dish nm ings prep pr cuisine_token serving_style_token level flag)
        = PLATED) \<and>
   (cooking_method_token \<notin> {''GRILLED'', ''BAKED'', ''BOILED'', ''FRIED'', ''STEAMED'', ''RAW''} \<longrightarrow>
      cooking_method (MAINCOURSE_dish nm ings prep pr cuisine_token cooking_method_token protein
                        entries flag) = GRILLED) \<and>
   (flavor_profile_token \<notin> {''SWEET'', ''BITTER'', ''SOUR'', ''SALTY'', ''UMAMI''} \<longrightarrow>
      flavor_profile (DESSERT_dish nm ings prep pr cuisine_token flavor_profile_token level flag)
        = SWEET) \<and>
   (i < length entries \<and>
    snd (entries ! i) \<notin> {''GRAIN'', ''PASTA'', ''LEGUME'', ''BREAD'', ''SALAD'', ''SOUP'',
                           ''STARCHES'', ''VEGETABLE''} \<longrightarrow>
      side_dishes (MAINCOURSE_dish nm ings prep pr cuisine_token cooking_method_token protein
                     entries flag) ! i =
        \<lparr>SideDish.name = fst (entries ! i), category = GRAIN\<rparr>)"
  by (simp add: APPETIZER_dish_def MAINCOURSE_dish_def DESSERT_dish_def Appetizer_new_def
      MainCourse_new_def Dessert_new_def cuisine_type_enum_def serving_style_enum_def
      cooking_method_enum_def flavor_profile_enum_def side_dishes_enum_def split_beta)

theorem unrecognized_tokens_fall_back_witness:
  "''italian'' \<notin> {''ITALIAN'', ''MEXICAN'', ''CHINESE'', ''INDIAN'', ''AMERICAN'', ''FRENCH''} \<and>
   cuisine_type (APPETIZER_dish ''Wings'' [''Chicken''] 20 5 ''italian'' ''Plated'' 2 False) = OTHER \<and>
   cuisine_type (MAINCOURSE_dish ''Wings'' [''Chicken''] 20 5 ''italian'' ''SEARED'' ''Beef''
                   [(''Salad'', ''SALAD''), (''Rice'', ''GRAINS'')] False) = OTHER \<and>
   cuisine_type (DESSERT_dish ''Wings'' [''Chicken''] 20 5 ''italian'' ''TANGY'' 2 False) = OTHER \<and>
   ''Plated'' \<notin> {''PLATED'', ''FAMILY_STYLE'', ''BUFFET''} \<and>
   serving_style (APPETIZER_dish ''Wings'' [''Chicken''] 20 5 ''italian'' ''Plated'' 2 False)
     = PLATED \<and>
   ''SEARED'' \<notin> {''GRILLED'', ''BAKED'', ''BOILED'', ''FRIED'', ''STEAMED'', ''RAW''} \<and>
   cooking_method (MAINCOURSE_dish ''Wings'' [''Chicken''] 20 5 ''italian'' ''SEARED'' ''Beef''
                     [(''Salad'', ''SALAD''), (''Rice'', ''GRAINS'')] False) = GRILLED \<and>
   ''TANGY'' \<notin> {''SWEET'', ''BITTER'', ''SOUR'', ''SALTY'', ''UMAMI''} \<and>
   flavor_profile (DESSERT_dish ''Wings'' [''Chicken''] 20 5 ''italian'' ''TANGY'' 2 False)
     = SWEET \<and>
   ''GRAINS'' \<notin> {''GRAIN'', ''PASTA'', ''LEGUME'', ''BREAD'', ''SALAD'', ''SOUP'', ''STARCHES'',
                  ''VEGETABLE''} \<and>
   side_dishes (MAINCOURSE_dish ''Wings'' [''Chicken''] 20 5 ''italian'' ''SEARED'' ''Beef''
                  [(''Salad'', ''SALAD''), (''Rice'', ''GRAINS'')] False) ! 1
     = \<lparr>SideDish.name = ''Rice'', category = GRAIN\<rparr>"
  using unrecognized_tokens_fall_back [of "''italian''" "''Wings''" "[''Chicken'']" 20 5
      "''Plated''" 2 False "''SEARED''" "''Beef''" "[(''Salad'', ''SALAD''), (''Rice'', ''GRAINS'')]"
      "''TANGY''" 1]
  by simp

end
